theory Spec2Isabelle
  imports Main "HOL-Library.Word"
begin

section \<open>Primitive index rewrite (prim\_rewrite.c)\<close>

subsection \<open>Data model\<close>

text \<open>
  Modelled from the spec: the enums \<open>ShaderPrimitiveMode\<close> and \<open>ShaderPolygonMode\<close> are
  declared in \<open>vsh_regs.h\<close>, which is not among the sources. The constructors are the
  topologies and fill modes the spec lists (PrimitiveTopology, FillMode), under the names
  the C code uses for them.
\<close>

datatype ShaderPrimitiveMode =
    PRIM_TYPE_POINTS
  | PRIM_TYPE_LINES
  | PRIM_TYPE_LINE_LOOP
  | PRIM_TYPE_LINE_STRIP
  | PRIM_TYPE_TRIANGLES
  | PRIM_TYPE_TRIANGLE_STRIP
  | PRIM_TYPE_TRIANGLE_FAN
  | PRIM_TYPE_QUADS
  | PRIM_TYPE_QUAD_STRIP
  | PRIM_TYPE_POLYGON

datatype ShaderPolygonMode = POLY_MODE_FILL | POLY_MODE_POINT | POLY_MODE_LINE

text \<open>\<open>struct PrimAssemblyState\<close>.\<close>

record PrimAssemblyState =
  primitive_mode :: ShaderPrimitiveMode
  polygon_mode :: ShaderPolygonMode
  last_provoking :: bool
  flat_shading :: bool

text \<open>
  \<open>struct PrimRewriteBuf\<close>: the scratch array and its capacity in elements. The pointer
  \<open>data\<close> is \<open>None\<close> for \<open>NULL\<close> and otherwise holds the contents of the
  allocated array.
\<close>

record PrimRewriteBuf =
  data :: "32 word list option"
  capacity :: "32 word"

text \<open>
  \<open>struct PrimRewrite\<close>: the view handed back to the caller. \<open>indices\<close> aliases the
  scratch array of the \<open>PrimRewriteBuf\<close>; the model carries the array contents with the
  view while the decomposition writes through it, and the entry points store them back
  into the buffer they return. \<open>num_indices\<close> is an \<open>unsigned int\<close>; it never exceeds
  the capacity (a 32-bit value) in a run that does not fail, so it is a \<open>nat\<close> here.
\<close>

record PrimRewrite =
  indices :: "32 word list option"
  num_indices :: nat

text \<open>
  The ways a call can go wrong: a failed \<open>assert\<close>, and a store outside the object a
  pointer refers to (undefined behaviour in C: a null dereference or a write past the end
  of the scratch array or of the mapped region).
\<close>

datatype error = AssertionFailed | OutOfBounds

subsection \<open>Scratch buffer\<close>

definition pgraph_prim_rewrite_init :: "PrimRewriteBuf \<Rightarrow> PrimRewriteBuf" where
  "pgraph_prim_rewrite_init buf = buf\<lparr>data := None, capacity := 0\<rparr>"

definition pgraph_prim_rewrite_finalize :: "PrimRewriteBuf \<Rightarrow> PrimRewriteBuf" where
  "pgraph_prim_rewrite_finalize buf = buf\<lparr>data := None, capacity := 0\<rparr>"

text \<open>
  GLib's \<open>g_realloc\<close> on an array of 32-bit elements: the old contents are kept up to the
  new size; the fresh cells are uninitialised in C and zero here. It aborts the process
  rather than return \<open>NULL\<close> for a non-zero size.
\<close>

definition g_realloc :: "32 word list option \<Rightarrow> nat \<Rightarrow> 32 word list" where
  "g_realloc old n =
     (let a = (case old of None \<Rightarrow> [] | Some xs \<Rightarrow> xs)
      in take n a @ replicate (n - length a) 0)"

definition ensure_capacity :: "PrimRewriteBuf \<Rightarrow> 32 word \<Rightarrow> PrimRewriteBuf" where
  "ensure_capacity buf needed =
     (if needed \<le> capacity buf then buf
      else
        let cap = max needed (capacity buf * 2)
        in buf\<lparr>capacity := cap, data := Some (g_realloc (data buf) (unat cap))\<rparr>)"

subsection \<open>Output mode, rewrite necessity, maximum output size\<close>

definition pgraph_prim_rewrite_get_output_mode ::
  "ShaderPrimitiveMode \<Rightarrow> ShaderPolygonMode \<Rightarrow> ShaderPrimitiveMode" where
  "pgraph_prim_rewrite_get_output_mode pmode pgmode =
     (case pmode of
        PRIM_TYPE_POINTS \<Rightarrow> PRIM_TYPE_POINTS
      | PRIM_TYPE_LINES \<Rightarrow> PRIM_TYPE_LINES
      | PRIM_TYPE_LINE_STRIP \<Rightarrow> PRIM_TYPE_LINES
      | PRIM_TYPE_LINE_LOOP \<Rightarrow> PRIM_TYPE_LINES
      | PRIM_TYPE_TRIANGLES \<Rightarrow> PRIM_TYPE_TRIANGLES
      | PRIM_TYPE_TRIANGLE_STRIP \<Rightarrow> PRIM_TYPE_TRIANGLES
      | PRIM_TYPE_TRIANGLE_FAN \<Rightarrow> PRIM_TYPE_TRIANGLES
      | PRIM_TYPE_QUADS \<Rightarrow>
          (if pgmode = POLY_MODE_LINE then PRIM_TYPE_LINES else PRIM_TYPE_TRIANGLES)
      | PRIM_TYPE_QUAD_STRIP \<Rightarrow>
          (if pgmode = POLY_MODE_LINE then PRIM_TYPE_LINES else PRIM_TYPE_TRIANGLES)
      | PRIM_TYPE_POLYGON \<Rightarrow>
          (if pgmode = POLY_MODE_LINE then PRIM_TYPE_LINES else PRIM_TYPE_TRIANGLES))"

definition needs_rewrite :: "PrimAssemblyState \<Rightarrow> bool" where
  "needs_rewrite mode =
     (case primitive_mode mode of
        PRIM_TYPE_POINTS \<Rightarrow> False
      | PRIM_TYPE_LINES \<Rightarrow> last_provoking mode \<and> flat_shading mode
      | PRIM_TYPE_TRIANGLES \<Rightarrow> last_provoking mode \<and> flat_shading mode
      | _ \<Rightarrow> True)"

text \<open>All arithmetic of \<open>max_output_indices\<close> is on \<open>unsigned int\<close> and wraps modulo \<open>2^32\<close>.\<close>

definition max_output_indices ::
  "ShaderPrimitiveMode \<Rightarrow> ShaderPolygonMode \<Rightarrow> 32 word \<Rightarrow> 32 word" where
  "max_output_indices pmode pgmode input_count =
     (case pmode of
        PRIM_TYPE_LINES \<Rightarrow> input_count
      | PRIM_TYPE_LINE_STRIP \<Rightarrow> (if 2 \<le> input_count then (input_count - 1) * 2 else 0)
      | PRIM_TYPE_LINE_LOOP \<Rightarrow> (if 2 \<le> input_count then input_count * 2 else 0)
      | PRIM_TYPE_TRIANGLES \<Rightarrow> input_count
      | PRIM_TYPE_TRIANGLE_STRIP \<Rightarrow> (if 3 \<le> input_count then (input_count - 2) * 3 else 0)
      | PRIM_TYPE_TRIANGLE_FAN \<Rightarrow> (if 3 \<le> input_count then (input_count - 2) * 3 else 0)
      | PRIM_TYPE_POLYGON \<Rightarrow>
          (if pgmode = POLY_MODE_LINE
           then (if 2 \<le> input_count then input_count * 2 else 0)
           else (if 3 \<le> input_count then (input_count - 2) * 3 else 0))
      | PRIM_TYPE_QUADS \<Rightarrow>
          (if pgmode = POLY_MODE_LINE
           then (input_count div 4) * 8
           else (input_count div 4) * 6)
      | PRIM_TYPE_QUAD_STRIP \<Rightarrow>
          (if pgmode = POLY_MODE_LINE
           then (if 4 \<le> input_count then ((input_count - 2) div 2) * 8 else 0)
           else (if 4 \<le> input_count then ((input_count - 2) div 2) * 6 else 0))
      | _ \<Rightarrow> 0)"

subsection \<open>Emitting vertices\<close>

text \<open>
  \<open>idx_at\<close>: the \<open>i\<close>-th input index, read from the explicit array when there is one and
  computed as \<open>base + i\<close> (32-bit, wrapping) otherwise. The loops below read only
  positions below their \<open>count\<close>; the caller passes an array of at least that many
  elements.
\<close>

definition idx_at :: "32 word list option \<Rightarrow> nat \<Rightarrow> 32 word \<Rightarrow> 32 word" where
  "idx_at idx i base = (case idx of Some xs \<Rightarrow> xs ! i | None \<Rightarrow> base + of_nat i)"

text \<open>
  \<open>emit_vertex\<close>: \<open>r->indices[r->num_indices++] = v\<close>. The C code has no bounds check;
  a store through a null pointer or past the end of the array is \<open>OutOfBounds\<close>.
\<close>

definition emit_vertex :: "PrimRewrite \<Rightarrow> 32 word \<Rightarrow> error + PrimRewrite" where
  "emit_vertex r v =
     (case indices r of
        None \<Rightarrow> Inl OutOfBounds
      | Some a \<Rightarrow>
          if num_indices r < length a
          then Inr (r\<lparr>indices := Some (a[num_indices r := v]),
                      num_indices := num_indices r + 1\<rparr>)
          else Inl OutOfBounds)"

text \<open>
  Statements in sequence: the second runs on the view the first leaves behind, unless the
  first already failed.
\<close>

definition and_then ::
  "error + PrimRewrite \<Rightarrow> (PrimRewrite \<Rightarrow> error + PrimRewrite) \<Rightarrow> error + PrimRewrite" where
  "and_then m f = (case m of Inl e \<Rightarrow> Inl e | Inr r \<Rightarrow> f r)"

definition emit_line :: "PrimRewrite \<Rightarrow> 32 word \<Rightarrow> 32 word \<Rightarrow> error + PrimRewrite" where
  "emit_line r a b = and_then (emit_vertex r a) (\<lambda>r. emit_vertex r b)"

definition emit_line_pv ::
  "PrimRewrite \<Rightarrow> 32 word \<Rightarrow> 32 word \<Rightarrow> 32 word \<Rightarrow> error + PrimRewrite" where
  "emit_line_pv r a b p = (if p = a then emit_line r a b else emit_line r b a)"

definition emit_tri ::
  "PrimRewrite \<Rightarrow> 32 word \<Rightarrow> 32 word \<Rightarrow> 32 word \<Rightarrow> error + PrimRewrite" where
  "emit_tri r a b c =
     and_then (emit_vertex r a) (\<lambda>r. and_then (emit_vertex r b) (\<lambda>r. emit_vertex r c))"

definition emit_tri_pv ::
  "PrimRewrite \<Rightarrow> 32 word \<Rightarrow> 32 word \<Rightarrow> 32 word \<Rightarrow> 32 word \<Rightarrow> error + PrimRewrite" where
  "emit_tri_pv r a b c p =
     (if p = a then emit_tri r a b c
      else if p = b then emit_tri r b c a
      else emit_tri r c a b)"

subsection \<open>Decomposition loops\<close>

text \<open>
  Each \<open>for\<close> loop is a recursive function on its counter \<open>i\<close>. The counters and
  \<open>count\<close> are \<open>unsigned int\<close> in C; for \<open>count \<le> 2^32 - 4\<close> no \<open>i + k\<close> of a loop
  condition or increment wraps, so they are \<open>nat\<close> here and the theorems below bound
  \<open>count\<close>.
\<close>

function rewrite_lines_loop ::
  "PrimRewrite \<Rightarrow> 32 word list option \<Rightarrow> 32 word \<Rightarrow> nat \<Rightarrow> bool \<Rightarrow> nat \<Rightarrow> error + PrimRewrite"
where
  "rewrite_lines_loop r idx base count lp i =
     (if i + 1 < count then
        (let v0 = idx_at idx i base;
             v1 = idx_at idx (i + 1) base;
             pv = (if lp then v1 else v0)
         in case emit_line_pv r v0 v1 pv of
              Inl e \<Rightarrow> Inl e
            | Inr r' \<Rightarrow> rewrite_lines_loop r' idx base count lp (i + 2))
      else Inr r)"
  by pat_completeness auto
termination
  by (relation "measure (\<lambda>(r, idx, base, count, lp, i). count - i)") auto

declare rewrite_lines_loop.simps [simp del]

definition rewrite_lines ::
  "PrimRewrite \<Rightarrow> 32 word list option \<Rightarrow> 32 word \<Rightarrow> nat \<Rightarrow> bool \<Rightarrow> error + PrimRewrite"
where
  "rewrite_lines r idx base count lp = rewrite_lines_loop r idx base count lp 0"

function rewrite_line_strip_loop ::
  "PrimRewrite \<Rightarrow> 32 word list option \<Rightarrow> 32 word \<Rightarrow> nat \<Rightarrow> bool \<Rightarrow> nat \<Rightarrow> error + PrimRewrite"
where
  "rewrite_line_strip_loop r idx base count lp i =
     (if i + 1 < count then
        (let v0 = idx_at idx i base;
             v1 = idx_at idx (i + 1) base;
             pv = (if lp then v1 else v0)
         in case emit_line_pv r v0 v1 pv of
              Inl e \<Rightarrow> Inl e
            | Inr r' \<Rightarrow> rewrite_line_strip_loop r' idx base count lp (i + 1))
      else Inr r)"
  by pat_completeness auto
termination
  by (relation "measure (\<lambda>(r, idx, base, count, flag, i). count - i)") auto

declare rewrite_line_strip_loop.simps [simp del]

definition rewrite_line_strip ::
  "PrimRewrite \<Rightarrow> 32 word list option \<Rightarrow> 32 word \<Rightarrow> nat \<Rightarrow> bool \<Rightarrow> error + PrimRewrite"
where
  "rewrite_line_strip r idx base count lp = rewrite_line_strip_loop r idx base count lp 0"

function rewrite_line_loop_loop ::
  "PrimRewrite \<Rightarrow> 32 word list option \<Rightarrow> 32 word \<Rightarrow> nat \<Rightarrow> bool \<Rightarrow> nat \<Rightarrow> error + PrimRewrite"
where
  "rewrite_line_loop_loop r idx base count lp i =
     (if i + 1 < count then
        (let v0 = idx_at idx i base;
             v1 = idx_at idx (i + 1) base;
             pv = (if lp then v1 else v0)
         in case emit_line_pv r v0 v1 pv of
              Inl e \<Rightarrow> Inl e
            | Inr r' \<Rightarrow> rewrite_line_loop_loop r' idx base count lp (i + 1))
      else Inr r)"
  by pat_completeness auto
termination
  by (relation "measure (\<lambda>(r, idx, base, count, flag, i). count - i)") auto

declare rewrite_line_loop_loop.simps [simp del]

definition rewrite_line_loop ::
  "PrimRewrite \<Rightarrow> 32 word list option \<Rightarrow> 32 word \<Rightarrow> nat \<Rightarrow> bool \<Rightarrow> error + PrimRewrite"
where
  "rewrite_line_loop r idx base count lp =
     (if count < 2 then Inr r
      else
        case rewrite_line_loop_loop r idx base count lp 0 of
          Inl e \<Rightarrow> Inl e
        | Inr r' \<Rightarrow>
            (let v_last = idx_at idx (count - 1) base;
                 v_first = idx_at idx 0 base;
                 pv = (if lp then v_first else v_last)
             in emit_line_pv r' v_last v_first pv))"

function rewrite_triangles_loop ::
  "PrimRewrite \<Rightarrow> 32 word list option \<Rightarrow> 32 word \<Rightarrow> nat \<Rightarrow> bool \<Rightarrow> nat \<Rightarrow> error + PrimRewrite"
where
  "rewrite_triangles_loop r idx base count lp i =
     (if i + 2 < count then
        (let v0 = idx_at idx i base;
             v1 = idx_at idx (i + 1) base;
             v2 = idx_at idx (i + 2) base;
             pv = (if lp then v2 else v0)
         in case emit_tri_pv r v0 v1 v2 pv of
              Inl e \<Rightarrow> Inl e
            | Inr r' \<Rightarrow> rewrite_triangles_loop r' idx base count lp (i + 3))
      else Inr r)"
  by pat_completeness auto
termination
  by (relation "measure (\<lambda>(r, idx, base, count, flag, i). count - i)") auto

declare rewrite_triangles_loop.simps [simp del]

definition rewrite_triangles ::
  "PrimRewrite \<Rightarrow> 32 word list option \<Rightarrow> 32 word \<Rightarrow> nat \<Rightarrow> bool \<Rightarrow> error + PrimRewrite"
where
  "rewrite_triangles r idx base count lp = rewrite_triangles_loop r idx base count lp 0"

function rewrite_triangle_strip_loop ::
  "PrimRewrite \<Rightarrow> 32 word list option \<Rightarrow> 32 word \<Rightarrow> nat \<Rightarrow> bool \<Rightarrow> nat \<Rightarrow> error + PrimRewrite"
where
  "rewrite_triangle_strip_loop r idx base count lp i =
     (if i + 2 < count then
        (let v0 = idx_at idx i base;
             v1 = idx_at idx (i + 1) base;
             v2 = idx_at idx (i + 2) base;
             pv = (if lp then v2 else v0)
         in case (if odd i then emit_tri_pv r v1 v0 v2 pv else emit_tri_pv r v0 v1 v2 pv) of
              Inl e \<Rightarrow> Inl e
            | Inr r' \<Rightarrow> rewrite_triangle_strip_loop r' idx base count lp (i + 1))
      else Inr r)"
  by pat_completeness auto
termination
  by (relation "measure (\<lambda>(r, idx, base, count, flag, i). count - i)") auto

declare rewrite_triangle_strip_loop.simps [simp del]

definition rewrite_triangle_strip ::
  "PrimRewrite \<Rightarrow> 32 word list option \<Rightarrow> 32 word \<Rightarrow> nat \<Rightarrow> bool \<Rightarrow> error + PrimRewrite"
where
  "rewrite_triangle_strip r idx base count lp =
     rewrite_triangle_strip_loop r idx base count lp 0"

function rewrite_triangle_fan_loop ::
  "PrimRewrite \<Rightarrow> 32 word list option \<Rightarrow> 32 word \<Rightarrow> nat \<Rightarrow> bool \<Rightarrow> 32 word \<Rightarrow> nat \<Rightarrow> error + PrimRewrite"
where
  "rewrite_triangle_fan_loop r idx base count lp hub i =
     (if i + 2 < count then
        (let v1 = idx_at idx (i + 1) base;
             v2 = idx_at idx (i + 2) base;
             pv = (if lp then v2 else v1)
         in case emit_tri_pv r hub v1 v2 pv of
              Inl e \<Rightarrow> Inl e
            | Inr r' \<Rightarrow> rewrite_triangle_fan_loop r' idx base count lp hub (i + 1))
      else Inr r)"
  by pat_completeness auto
termination
  by (relation "measure (\<lambda>(r, idx, base, count, lp, hub, i). count - i)") auto

declare rewrite_triangle_fan_loop.simps [simp del]

definition rewrite_triangle_fan ::
  "PrimRewrite \<Rightarrow> 32 word list option \<Rightarrow> 32 word \<Rightarrow> nat \<Rightarrow> bool \<Rightarrow> error + PrimRewrite"
where
  "rewrite_triangle_fan r idx base count lp =
     (if count < 3 then Inr r
      else
        let hub = idx_at idx 0 base
        in rewrite_triangle_fan_loop r idx base count lp hub 0)"

function rewrite_quads_loop ::
  "PrimRewrite \<Rightarrow> 32 word list option \<Rightarrow> 32 word \<Rightarrow> nat \<Rightarrow> bool \<Rightarrow> nat \<Rightarrow> error + PrimRewrite"
where
  "rewrite_quads_loop r idx base count fs i =
     (if i + 3 < count then
        (let v0 = idx_at idx i base;
             v1 = idx_at idx (i + 1) base;
             v2 = idx_at idx (i + 2) base;
             v3 = idx_at idx (i + 3) base
         in case (if fs
                  then and_then (emit_tri r v3 v0 v1) (\<lambda>r. emit_tri r v3 v1 v2)
                  else and_then (emit_tri r v0 v1 v2) (\<lambda>r. emit_tri r v0 v2 v3)) of
              Inl e \<Rightarrow> Inl e
            | Inr r' \<Rightarrow> rewrite_quads_loop r' idx base count fs (i + 4))
      else Inr r)"
  by pat_completeness auto
termination
  by (relation "measure (\<lambda>(r, idx, base, count, flag, i). count - i)") auto

declare rewrite_quads_loop.simps [simp del]

definition rewrite_quads ::
  "PrimRewrite \<Rightarrow> 32 word list option \<Rightarrow> 32 word \<Rightarrow> nat \<Rightarrow> bool \<Rightarrow> error + PrimRewrite"
where
  "rewrite_quads r idx base count fs = rewrite_quads_loop r idx base count fs 0"

function rewrite_quads_line_loop ::
  "PrimRewrite \<Rightarrow> 32 word list option \<Rightarrow> 32 word \<Rightarrow> nat \<Rightarrow> nat \<Rightarrow> error + PrimRewrite"
where
  "rewrite_quads_line_loop r idx base count i =
     (if i + 3 < count then
        (let v0 = idx_at idx i base;
             v1 = idx_at idx (i + 1) base;
             v2 = idx_at idx (i + 2) base;
             v3 = idx_at idx (i + 3) base
         in case and_then (emit_line r v0 v1) (\<lambda>r.
                 and_then (emit_line r v1 v2) (\<lambda>r.
                 and_then (emit_line r v2 v3) (\<lambda>r.
                 emit_line r v3 v0))) of
              Inl e \<Rightarrow> Inl e
            | Inr r' \<Rightarrow> rewrite_quads_line_loop r' idx base count (i + 4))
      else Inr r)"
  by pat_completeness auto
termination
  by (relation "measure (\<lambda>(r, idx, base, count, i). count - i)") auto

declare rewrite_quads_line_loop.simps [simp del]

definition rewrite_quads_line ::
  "PrimRewrite \<Rightarrow> 32 word list option \<Rightarrow> 32 word \<Rightarrow> nat \<Rightarrow> error + PrimRewrite"
where
  "rewrite_quads_line r idx base count = rewrite_quads_line_loop r idx base count 0"

function rewrite_quad_strip_loop ::
  "PrimRewrite \<Rightarrow> 32 word list option \<Rightarrow> 32 word \<Rightarrow> nat \<Rightarrow> bool \<Rightarrow> nat \<Rightarrow> error + PrimRewrite"
where
  "rewrite_quad_strip_loop r idx base count fs i =
     (if i + 3 < count then
        (let v0 = idx_at idx i base;
             v1 = idx_at idx (i + 1) base;
             v2 = idx_at idx (i + 2) base;
             v3 = idx_at idx (i + 3) base
         in case (if fs
                  then and_then (emit_tri r v3 v2 v0) (\<lambda>r. emit_tri r v3 v0 v1)
                  else and_then (emit_tri r v0 v1 v2) (\<lambda>r. emit_tri r v2 v1 v3)) of
              Inl e \<Rightarrow> Inl e
            | Inr r' \<Rightarrow> rewrite_quad_strip_loop r' idx base count fs (i + 2))
      else Inr r)"
  by pat_completeness auto
termination
  by (relation "measure (\<lambda>(r, idx, base, count, flag, i). count - i)") auto

declare rewrite_quad_strip_loop.simps [simp del]

definition rewrite_quad_strip ::
  "PrimRewrite \<Rightarrow> 32 word list option \<Rightarrow> 32 word \<Rightarrow> nat \<Rightarrow> bool \<Rightarrow> error + PrimRewrite"
where
  "rewrite_quad_strip r idx base count fs =
     (if count < 4 then Inr r else rewrite_quad_strip_loop r idx base count fs 0)"

function rewrite_quad_strip_line_loop ::
  "PrimRewrite \<Rightarrow> 32 word list option \<Rightarrow> 32 word \<Rightarrow> nat \<Rightarrow> nat \<Rightarrow> error + PrimRewrite"
where
  "rewrite_quad_strip_line_loop r idx base count i =
     (if i + 3 < count then
        (let v0 = idx_at idx i base;
             v1 = idx_at idx (i + 1) base;
             v2 = idx_at idx (i + 2) base;
             v3 = idx_at idx (i + 3) base
         in case and_then (emit_line r v0 v1) (\<lambda>r.
                 and_then (emit_line r v1 v3) (\<lambda>r.
                 and_then (emit_line r v3 v2) (\<lambda>r.
                 emit_line r v2 v0))) of
              Inl e \<Rightarrow> Inl e
            | Inr r' \<Rightarrow> rewrite_quad_strip_line_loop r' idx base count (i + 2))
      else Inr r)"
  by pat_completeness auto
termination
  by (relation "measure (\<lambda>(r, idx, base, count, i). count - i)") auto

declare rewrite_quad_strip_line_loop.simps [simp del]

definition rewrite_quad_strip_line ::
  "PrimRewrite \<Rightarrow> 32 word list option \<Rightarrow> 32 word \<Rightarrow> nat \<Rightarrow> error + PrimRewrite"
where
  "rewrite_quad_strip_line r idx base count =
     (if count < 4 then Inr r else rewrite_quad_strip_line_loop r idx base count 0)"

function rewrite_polygon_loop ::
  "PrimRewrite \<Rightarrow> 32 word list option \<Rightarrow> 32 word \<Rightarrow> nat \<Rightarrow> 32 word \<Rightarrow> nat \<Rightarrow> error + PrimRewrite"
where
  "rewrite_polygon_loop r idx base count hub i =
     (if i + 2 < count then
        (let v1 = idx_at idx (i + 1) base;
             v2 = idx_at idx (i + 2) base
         in case emit_tri r hub v1 v2 of
              Inl e \<Rightarrow> Inl e
            | Inr r' \<Rightarrow> rewrite_polygon_loop r' idx base count hub (i + 1))
      else Inr r)"
  by pat_completeness auto
termination
  by (relation "measure (\<lambda>(r, idx, base, count, hub, i). count - i)") auto

declare rewrite_polygon_loop.simps [simp del]

definition rewrite_polygon ::
  "PrimRewrite \<Rightarrow> 32 word list option \<Rightarrow> 32 word \<Rightarrow> nat \<Rightarrow> error + PrimRewrite"
where
  "rewrite_polygon r idx base count =
     (if count < 3 then Inr r
      else
        let hub = idx_at idx 0 base
        in rewrite_polygon_loop r idx base count hub 0)"

function rewrite_polygon_line_loop ::
  "PrimRewrite \<Rightarrow> 32 word list option \<Rightarrow> 32 word \<Rightarrow> nat \<Rightarrow> nat \<Rightarrow> error + PrimRewrite"
where
  "rewrite_polygon_line_loop r idx base count i =
     (if i + 1 < count then
        (case emit_line r (idx_at idx i base) (idx_at idx (i + 1) base) of
           Inl e \<Rightarrow> Inl e
         | Inr r' \<Rightarrow> rewrite_polygon_line_loop r' idx base count (i + 1))
      else Inr r)"
  by pat_completeness auto
termination
  by (relation "measure (\<lambda>(r, idx, base, count, i). count - i)") auto

declare rewrite_polygon_line_loop.simps [simp del]

definition rewrite_polygon_line ::
  "PrimRewrite \<Rightarrow> 32 word list option \<Rightarrow> 32 word \<Rightarrow> nat \<Rightarrow> error + PrimRewrite"
where
  "rewrite_polygon_line r idx base count =
     (if count < 2 then Inr r
      else
        case rewrite_polygon_line_loop r idx base count 0 of
          Inl e \<Rightarrow> Inl e
        | Inr r' \<Rightarrow> emit_line r' (idx_at idx (count - 1) base) (idx_at idx 0 base))"

subsection \<open>Dispatch and entry points\<close>

text \<open>
  \<open>rewrite_indices\<close>: the \<open>default\<close> branch (here: points) is
  \<open>assert(!"Unexpected primitive mode")\<close>.
\<close>

definition rewrite_indices ::
  "PrimRewrite \<Rightarrow> PrimAssemblyState \<Rightarrow> 32 word list option \<Rightarrow> 32 word \<Rightarrow> nat \<Rightarrow> error + PrimRewrite"
where
  "rewrite_indices r mode idx base n =
     (case primitive_mode mode of
        PRIM_TYPE_LINES \<Rightarrow> rewrite_lines r idx base n (last_provoking mode)
      | PRIM_TYPE_LINE_STRIP \<Rightarrow> rewrite_line_strip r idx base n (last_provoking mode)
      | PRIM_TYPE_LINE_LOOP \<Rightarrow> rewrite_line_loop r idx base n (last_provoking mode)
      | PRIM_TYPE_TRIANGLES \<Rightarrow> rewrite_triangles r idx base n (last_provoking mode)
      | PRIM_TYPE_TRIANGLE_STRIP \<Rightarrow> rewrite_triangle_strip r idx base n (last_provoking mode)
      | PRIM_TYPE_TRIANGLE_FAN \<Rightarrow> rewrite_triangle_fan r idx base n (last_provoking mode)
      | PRIM_TYPE_QUADS \<Rightarrow>
          (if polygon_mode mode = POLY_MODE_LINE
           then rewrite_quads_line r idx base n
           else rewrite_quads r idx base n (flat_shading mode))
      | PRIM_TYPE_QUAD_STRIP \<Rightarrow>
          (if polygon_mode mode = POLY_MODE_LINE
           then rewrite_quad_strip_line r idx base n
           else rewrite_quad_strip r idx base n (flat_shading mode))
      | PRIM_TYPE_POLYGON \<Rightarrow>
          (if polygon_mode mode = POLY_MODE_LINE
           then rewrite_polygon_line r idx base n
           else rewrite_polygon r idx base n)
      | _ \<Rightarrow> Inl AssertionFailed)"

text \<open>
  The loop of \<open>pgraph_prim_rewrite_ranges\<close> that sums the maximum output sizes of the
  ranges (an \<open>unsigned int\<close> sum; \<open>counts[r]\<close> is an \<open>int32_t\<close> converted to
  \<open>unsigned int\<close>, and \<open>starts[r]\<close> an \<open>int32_t\<close> converted to \<open>uint32_t\<close>, so a
  range is a pair of 32-bit words).
\<close>

fun total_max_output_loop ::
  "PrimAssemblyState \<Rightarrow> (32 word \<times> 32 word) list \<Rightarrow> 32 word \<Rightarrow> 32 word" where
  "total_max_output_loop mode [] tot = tot"
| "total_max_output_loop mode ((start, cnt) # ranges) tot =
     total_max_output_loop mode ranges
       (tot + max_output_indices (primitive_mode mode) (polygon_mode mode) cnt)"

text \<open>Its second loop: every range with a non-zero count is decomposed on its own.\<close>

fun rewrite_ranges_loop ::
  "PrimRewrite \<Rightarrow> PrimAssemblyState \<Rightarrow> (32 word \<times> 32 word) list \<Rightarrow> error + PrimRewrite" where
  "rewrite_ranges_loop r mode [] = Inr r"
| "rewrite_ranges_loop r mode ((start, cnt) # ranges) =
     (if cnt = 0 then rewrite_ranges_loop r mode ranges
      else
        case rewrite_indices r mode None start (unat cnt) of
          Inl e \<Rightarrow> Inl e
        | Inr r' \<Rightarrow> rewrite_ranges_loop r' mode ranges)"

text \<open>
  Both entry points return the scratch buffer as they leave it together with the view.
  The stores of the decomposition went through \<open>result.indices\<close>, an alias of
  \<open>buf->data\<close>, so the returned buffer holds the array of the returned view.
\<close>

definition pgraph_prim_rewrite_ranges ::
  "PrimRewriteBuf \<Rightarrow> PrimAssemblyState \<Rightarrow> (32 word \<times> 32 word) list
     \<Rightarrow> error + (PrimRewriteBuf \<times> PrimRewrite)"
where
  "pgraph_prim_rewrite_ranges buf mode ranges =
     (let result = \<lparr>indices = None, num_indices = 0\<rparr> in
      if \<not> (polygon_mode mode \<noteq> POLY_MODE_POINT \<or> primitive_mode mode \<noteq> PRIM_TYPE_POLYGON)
      then Inl AssertionFailed
      else if \<not> needs_rewrite mode then Inr (buf, result)
      else
        let total_max_output = total_max_output_loop mode ranges 0 in
        if total_max_output = 0 then Inr (buf, result)
        else
          let buf' = ensure_capacity buf total_max_output;
              result' = result\<lparr>indices := data buf'\<rparr>
          in case rewrite_ranges_loop result' mode ranges of
               Inl e \<Rightarrow> Inl e
             | Inr r \<Rightarrow> Inr (buf'\<lparr>data := indices r\<rparr>, r))"

definition pgraph_prim_rewrite_indexed ::
  "PrimRewriteBuf \<Rightarrow> PrimAssemblyState \<Rightarrow> 32 word list option \<Rightarrow> 32 word
     \<Rightarrow> error + (PrimRewriteBuf \<times> PrimRewrite)"
where
  "pgraph_prim_rewrite_indexed buf mode input_indices num_input_indices =
     (let result = \<lparr>indices = None, num_indices = 0\<rparr> in
      if \<not> (polygon_mode mode \<noteq> POLY_MODE_POINT \<or> primitive_mode mode \<noteq> PRIM_TYPE_POLYGON)
      then Inl AssertionFailed
      else if \<not> needs_rewrite mode then Inr (buf, result)
      else
        let max_output =
              max_output_indices (primitive_mode mode) (polygon_mode mode) num_input_indices
        in
        if max_output = 0 then Inr (buf, result)
        else
          let buf' = ensure_capacity buf max_output;
              result' = result\<lparr>indices := data buf'\<rparr>
          in case rewrite_indices result' mode input_indices 0 (unat num_input_indices) of
               Inl e \<Rightarrow> Inl e
             | Inr r \<Rightarrow> Inr (buf'\<lparr>data := indices r\<rparr>, r))"

text \<open>\<open>pgraph_prim_rewrite_sequential\<close> (prim\_rewrite.h): one range.\<close>

definition pgraph_prim_rewrite_sequential ::
  "PrimRewriteBuf \<Rightarrow> PrimAssemblyState \<Rightarrow> 32 word \<Rightarrow> 32 word
     \<Rightarrow> error + (PrimRewriteBuf \<times> PrimRewrite)"
where
  "pgraph_prim_rewrite_sequential buf mode start cnt =
     pgraph_prim_rewrite_ranges buf mode [(start, cnt)]"

section \<open>Buffer set manager (buffer.c)\<close>

subsection \<open>Data model\<close>

text \<open>
  \<open>VkDeviceSize\<close>, \<open>VkDeviceAddress\<close> and \<open>size_t\<close> are 64-bit unsigned integers.

  Modelled from the spec: the macro \<open>ROUND_UP\<close> comes from \<open>qemu/osdep.h\<close>, which is
  not among the sources. The spec calls it \<open>roundUp(bumpOffset, alignment)\<close>: the offset
  rounded up to the next multiple of the alignment, computed in 64-bit arithmetic.
\<close>

definition ROUND_UP :: "64 word \<Rightarrow> 64 word \<Rightarrow> 64 word" where
  "ROUND_UP n d = ((n + d - 1) div d) * d"

text \<open>
  The two \<open>VmaAllocationCreateInfo\<close> values of \<open>pgraph_vk_init_buffers\<close> and the Vulkan
  usage bits it combines.
\<close>

datatype MemoryClass = HostVisible | DeviceLocal

datatype BufferUsage =
    TRANSFER_SRC_BIT | TRANSFER_DST_BIT | STORAGE_BUFFER_BIT
  | INDEX_BUFFER_BIT | VERTEX_BUFFER_BIT | UNIFORM_BUFFER_BIT

text \<open>
  Modelled from the spec: \<open>struct StorageBuffer\<close> is declared in \<open>renderer.h\<close>, which is
  not among the sources; the fields are those \<open>buffer.c\<close> uses. The handles \<open>buffer\<close>
  and \<open>allocation\<close> are \<open>None\<close> for \<open>VK_NULL_HANDLE\<close>. The pointer \<open>mapped\<close> is \<open>None\<close>
  for \<open>NULL\<close> and otherwise holds the bytes of the mapped region.
\<close>

record StorageBuffer =
  buffer :: "nat option"
  usage :: "BufferUsage list"
  alloc_info :: MemoryClass
  allocation :: "nat option"
  buffer_offset :: "64 word"
  buffer_size :: "64 word"
  mapped :: "8 word list option"

text \<open>
  What lives outside the renderer state: the buffers the VMA allocator has created and
  not destroyed, the allocations it has mapped and not unmapped (both by handle), the next
  handle it hands out, and the number of live GLib heap blocks this module allocated.
\<close>

record Resources =
  vma_buffers :: "nat list"
  vma_mappings :: "nat list"
  next_handle :: nat
  heap_blocks :: nat

text \<open>
  Which calls of the environment succeed: \<open>bitmap_new\<close>, \<open>vmaCreateBuffer\<close> for the
  buffer at an index, \<open>vmaMapMemory\<close> for the buffer at an index.
\<close>

record Outcomes =
  bitmap_new_ok :: bool
  create_ok :: "nat \<Rightarrow> bool"
  map_ok :: "nat \<Rightarrow> bool"

text \<open>The part of \<open>PGRAPHVkState\<close> that \<open>buffer.c\<close> touches.\<close>

record PGRAPHVkState =
  storage_buffers :: "StorageBuffer list"
  uploaded_bitmap :: "bool list option"
  bitmap_size :: nat
  prim_rewrite_buf :: PrimRewriteBuf

text \<open>
  The buffer indices, in the order of \<open>buffer_names\<close> (the enum is declared in
  \<open>renderer.h\<close>).
\<close>

definition BUFFER_STAGING_DST :: nat where "BUFFER_STAGING_DST = 0"
definition BUFFER_STAGING_SRC :: nat where "BUFFER_STAGING_SRC = 1"
definition BUFFER_COMPUTE_DST :: nat where "BUFFER_COMPUTE_DST = 2"
definition BUFFER_COMPUTE_SRC :: nat where "BUFFER_COMPUTE_SRC = 3"
definition BUFFER_INDEX :: nat where "BUFFER_INDEX = 4"
definition BUFFER_INDEX_STAGING :: nat where "BUFFER_INDEX_STAGING = 5"
definition BUFFER_VERTEX_RAM :: nat where "BUFFER_VERTEX_RAM = 6"
definition BUFFER_VERTEX_INLINE :: nat where "BUFFER_VERTEX_INLINE = 7"
definition BUFFER_VERTEX_INLINE_STAGING :: nat where "BUFFER_VERTEX_INLINE_STAGING = 8"
definition BUFFER_UNIFORM :: nat where "BUFFER_UNIFORM = 9"
definition BUFFER_UNIFORM_STAGING :: nat where "BUFFER_UNIFORM_STAGING = 10"
definition BUFFER_COUNT :: nat where "BUFFER_COUNT = 11"

subsection \<open>Capacity check and append\<close>

definition pgraph_vk_buffer_has_space_for ::
  "PGRAPHVkState \<Rightarrow> nat \<Rightarrow> 64 word \<Rightarrow> 64 word \<Rightarrow> bool" where
  "pgraph_vk_buffer_has_space_for r index sz alignment =
     (let b = storage_buffers r ! index
      in ROUND_UP (buffer_offset b) alignment + sz \<le> buffer_size b)"

text \<open>
  \<open>memcpy(dst + off, src, n)\<close> into the mapped region: a copy that reads past the source
  or writes past the end of the region is \<open>OutOfBounds\<close>.
\<close>

definition memcpy_at ::
  "8 word list \<Rightarrow> nat \<Rightarrow> 8 word list \<Rightarrow> nat \<Rightarrow> error + 8 word list" where
  "memcpy_at region off src n =
     (if n \<le> length src \<and> off + n \<le> length region
      then Inr (take off region @ take n src @ drop (off + n) region)
      else Inl OutOfBounds)"

text \<open>The first loop of \<open>pgraph_vk_append_to_buffer\<close>: the sum of the chunk sizes.\<close>

fun total_size_loop :: "64 word list \<Rightarrow> 64 word \<Rightarrow> 64 word" where
  "total_size_loop [] total_size = total_size"
| "total_size_loop (sz # sizes) total_size = total_size_loop sizes (total_size + sz)"

text \<open>
  Its second loop, over the chunks \<open>(data[i], sizes[i])\<close>: the offset is rounded up
  before every chunk, the chunk is copied there, and the offset advances by its size.
\<close>

fun append_loop ::
  "StorageBuffer \<Rightarrow> (8 word list \<times> 64 word) list \<Rightarrow> 64 word \<Rightarrow> error + StorageBuffer" where
  "append_loop b [] alignment = Inr b"
| "append_loop b ((src, sz) # chunks) alignment =
     (let b1 = b\<lparr>buffer_offset := ROUND_UP (buffer_offset b) alignment\<rparr>
      in case mapped b1 of
           None \<Rightarrow> Inl OutOfBounds
         | Some region \<Rightarrow>
             (case memcpy_at region (unat (buffer_offset b1)) src (unat sz) of
                Inl e \<Rightarrow> Inl e
              | Inr region' \<Rightarrow>
                  append_loop
                    (b1\<lparr>mapped := Some region', buffer_offset := buffer_offset b1 + sz\<rparr>)
                    chunks alignment))"

definition pgraph_vk_append_to_buffer ::
  "PGRAPHVkState \<Rightarrow> nat \<Rightarrow> (8 word list \<times> 64 word) list \<Rightarrow> 64 word
     \<Rightarrow> error + (PGRAPHVkState \<times> 64 word)" where
  "pgraph_vk_append_to_buffer r index chunks alignment =
     (let total_size = total_size_loop (map snd chunks) 0 in
      if \<not> pgraph_vk_buffer_has_space_for r index total_size alignment
      then Inl AssertionFailed
      else
        let b = storage_buffers r ! index;
            starting_offset = ROUND_UP (buffer_offset b) alignment
        in if mapped b = None then Inl AssertionFailed
           else
             case append_loop b chunks alignment of
               Inl e \<Rightarrow> Inl e
             | Inr b' \<Rightarrow>
                 Inr (r\<lparr>storage_buffers := (storage_buffers r)[index := b']\<rparr>, starting_offset))"

subsection \<open>Creating the buffer set\<close>

text \<open>
  What \<open>pgraph_vk_init_buffers\<close> reads from outside \<open>buffer.c\<close>: the size of the video
  memory region, whether the build is for Android (the \<open>#ifdef __ANDROID__\<close> branches),
  and two sizes computed from constants of headers that are not among the sources
  (\<open>sizeof(pg->inline_elements)\<close>, and
  \<open>NV2A_VERTEXSHADER_ATTRIBUTES * NV2A_MAX_BATCH_LENGTH * 4 * sizeof(float)\<close>).
\<close>

record InitParams =
  vram_size :: "64 word"
  android :: bool
  inline_elements_bytes :: "64 word"
  vertex_batch_bytes :: "64 word"

text \<open>
  A compound literal \<open>(StorageBuffer){.alloc_info = ..., .usage = ..., .buffer_size = ...}\<close>:
  every field it does not name is zero.
\<close>

definition new_storage_buffer :: "MemoryClass \<Rightarrow> BufferUsage list \<Rightarrow> 64 word \<Rightarrow> StorageBuffer" where
  "new_storage_buffer cls use sz =
     \<lparr>buffer = None, usage = use, alloc_info = cls, allocation = None,
      buffer_offset = 0, buffer_size = sz, mapped = None\<rparr>"

text \<open>
  \<open>create_buffer\<close>: \<open>vmaCreateBuffer\<close> either hands out a fresh buffer with its
  allocation, or fails and leaves both handles null.
\<close>

definition create_buffer ::
  "Outcomes \<Rightarrow> nat \<Rightarrow> Resources \<Rightarrow> StorageBuffer \<Rightarrow> bool \<times> Resources \<times> StorageBuffer" where
  "create_buffer env i w b =
     (if create_ok env i
      then
        (let h = next_handle w
         in (True, w\<lparr>vma_buffers := h # vma_buffers w, next_handle := h + 1\<rparr>,
             b\<lparr>buffer := Some h, allocation := Some h\<rparr>))
      else (False, w, b\<lparr>buffer := None, allocation := None\<rparr>))"

text \<open>\<open>vmaDestroyBuffer\<close>, \<open>vmaMapMemory\<close> and \<open>vmaUnmapMemory\<close> on the resources.\<close>

definition vmaDestroyBuffer :: "Resources \<Rightarrow> nat option \<Rightarrow> Resources" where
  "vmaDestroyBuffer w handle =
     (case handle of None \<Rightarrow> w | Some h \<Rightarrow> w\<lparr>vma_buffers := remove1 h (vma_buffers w)\<rparr>)"

definition vmaMapMemory ::
  "Outcomes \<Rightarrow> nat \<Rightarrow> Resources \<Rightarrow> StorageBuffer \<Rightarrow> bool \<times> Resources \<times> StorageBuffer" where
  "vmaMapMemory env i w b =
     (if map_ok env i
      then (True,
            (case allocation b of
               None \<Rightarrow> w
             | Some h \<Rightarrow> w\<lparr>vma_mappings := h # vma_mappings w\<rparr>),
            b\<lparr>mapped := Some (replicate (unat (buffer_size b)) 0)\<rparr>)
      else (False, w, b))"

definition vmaUnmapMemory :: "Resources \<Rightarrow> nat option \<Rightarrow> Resources" where
  "vmaUnmapMemory w handle =
     (case handle of None \<Rightarrow> w | Some h \<Rightarrow> w\<lparr>vma_mappings := remove1 h (vma_mappings w)\<rparr>)"

definition destroy_buffer :: "Resources \<Rightarrow> StorageBuffer \<Rightarrow> Resources \<times> StorageBuffer" where
  "destroy_buffer w b =
     (if buffer b = None \<and> allocation b = None then (w, b)
      else (vmaDestroyBuffer w (buffer b), b\<lparr>buffer := None, allocation := None\<rparr>))"

text \<open>The loop that creates the buffers \<open>i, \<dots>, BUFFER_COUNT - 1\<close>; it stops at the first failure.\<close>

function create_buffers_loop ::
  "Outcomes \<Rightarrow> Resources \<Rightarrow> StorageBuffer list \<Rightarrow> nat \<Rightarrow> bool \<times> Resources \<times> StorageBuffer list" where
  "create_buffers_loop env w sb i =
     (if i < BUFFER_COUNT then
        (case create_buffer env i w (sb ! i) of
           (ok, w', b') \<Rightarrow>
             if \<not> ok then (False, w', sb[i := b'])
             else create_buffers_loop env w' (sb[i := b']) (i + 1))
      else (True, w, sb))"
  by pat_completeness auto
termination
  by (relation "measure (\<lambda>(env, w, sb, i). BUFFER_COUNT - i)") auto

declare create_buffers_loop.simps [simp del]

definition buffers_to_map :: "nat list" where
  "buffers_to_map =
     [BUFFER_VERTEX_RAM, BUFFER_INDEX_STAGING, BUFFER_VERTEX_INLINE_STAGING, BUFFER_UNIFORM_STAGING]"

text \<open>The loop that maps the buffers of \<open>buffers_to_map\<close>; it stops at the first failure.\<close>

fun map_buffers_loop ::
  "Outcomes \<Rightarrow> Resources \<Rightarrow> StorageBuffer list \<Rightarrow> nat list \<Rightarrow> bool \<times> Resources \<times> StorageBuffer list" where
  "map_buffers_loop env w sb [] = (True, w, sb)"
| "map_buffers_loop env w sb (idx # rest) =
     (case vmaMapMemory env idx w (sb ! idx) of
        (ok, w', b') \<Rightarrow>
          if \<not> ok then (False, w', sb[idx := b'])
          else map_buffers_loop env w' (sb[idx := b']) rest)"

text \<open>
  The loop under the label \<open>fail\<close>: every buffer that is mapped is unmapped, and every
  buffer is destroyed.
\<close>

function release_buffers_loop ::
  "Resources \<Rightarrow> StorageBuffer list \<Rightarrow> nat \<Rightarrow> Resources \<times> StorageBuffer list" where
  "release_buffers_loop w sb i =
     (if i < BUFFER_COUNT then
        (let b = sb ! i;
             w1 = (if mapped b \<noteq> None then vmaUnmapMemory w (allocation b) else w);
             b1 = (if mapped b \<noteq> None then b\<lparr>mapped := None\<rparr> else b)
         in case destroy_buffer w1 b1 of
              (w2, b2) \<Rightarrow> release_buffers_loop w2 (sb[i := b2]) (i + 1))
      else (w, sb))"
  by pat_completeness auto
termination
  by (relation "measure (\<lambda>(w, sb, i). BUFFER_COUNT - i)") auto

declare release_buffers_loop.simps [simp del]

text \<open>
  The code under the label \<open>fail\<close>: release the buffers, free the bitmap (\<open>g_free\<close> of a
  null pointer does nothing), report failure.
\<close>

definition init_buffers_fail :: "Resources \<Rightarrow> PGRAPHVkState \<Rightarrow> bool \<times> Resources \<times> PGRAPHVkState" where
  "init_buffers_fail w r =
     (case release_buffers_loop w (storage_buffers r) 0 of
        (w1, sb) \<Rightarrow>
          (False,
           (if uploaded_bitmap r \<noteq> None then w1\<lparr>heap_blocks := heap_blocks w1 - 1\<rparr> else w1),
           r\<lparr>storage_buffers := sb, uploaded_bitmap := None, bitmap_size := 0\<rparr>))"

text \<open>
  The struct assignments of \<open>pgraph_vk_init_buffers\<close> that precede the allocation of the
  bitmap (with the buffer sizes they compute), and those that follow it.
\<close>

definition assign_buffers_before_bitmap :: "InitParams \<Rightarrow> StorageBuffer list \<Rightarrow> StorageBuffer list" where
  "assign_buffers_before_bitmap p sb0 =
     (let mib = (1024 * 1024 :: 64 word);
          staging_size = (if vram_size p < 16 * mib then 16 * mib else vram_size p);
          compute_size = vram_size p * 2;
          compute_size = (if compute_size < 64 * mib then 64 * mib else compute_size);
          compute_size =
            (if android p
             then (if compute_size > 64 * mib then 64 * mib else compute_size)
             else (if compute_size > 256 * mib then 256 * mib else compute_size));
          sb = sb0[BUFFER_STAGING_DST :=
                     new_storage_buffer HostVisible [TRANSFER_DST_BIT] staging_size];
          sb = sb[BUFFER_STAGING_SRC :=
                    new_storage_buffer HostVisible [TRANSFER_SRC_BIT]
                      (buffer_size (sb ! BUFFER_STAGING_DST))];
          sb = sb[BUFFER_COMPUTE_DST :=
                    new_storage_buffer DeviceLocal [TRANSFER_DST_BIT, STORAGE_BUFFER_BIT]
                      compute_size];
          sb = sb[BUFFER_COMPUTE_SRC :=
                    new_storage_buffer DeviceLocal [TRANSFER_SRC_BIT, STORAGE_BUFFER_BIT]
                      (buffer_size (sb ! BUFFER_COMPUTE_DST))];
          sb = sb[BUFFER_INDEX :=
                    new_storage_buffer DeviceLocal [TRANSFER_DST_BIT, INDEX_BUFFER_BIT]
                      (inline_elements_bytes p * 100)];
          sb = sb[BUFFER_INDEX_STAGING :=
                    new_storage_buffer HostVisible [TRANSFER_SRC_BIT]
                      (buffer_size (sb ! BUFFER_INDEX))]
      in sb[BUFFER_VERTEX_RAM :=
              new_storage_buffer HostVisible [VERTEX_BUFFER_BIT] (vram_size p)])"

definition assign_buffers_after_bitmap :: "InitParams \<Rightarrow> StorageBuffer list \<Rightarrow> StorageBuffer list" where
  "assign_buffers_after_bitmap p sb0 =
     (let sb = sb0[BUFFER_VERTEX_INLINE :=
                     new_storage_buffer DeviceLocal [TRANSFER_DST_BIT, VERTEX_BUFFER_BIT]
                       (vertex_batch_bytes p * 10)];
          sb = sb[BUFFER_VERTEX_INLINE_STAGING :=
                    new_storage_buffer HostVisible [TRANSFER_SRC_BIT]
                      (buffer_size (sb ! BUFFER_VERTEX_INLINE))];
          sb = sb[BUFFER_UNIFORM :=
                    new_storage_buffer DeviceLocal [TRANSFER_DST_BIT, UNIFORM_BUFFER_BIT]
                      (8 * 1024 * 1024)]
      in sb[BUFFER_UNIFORM_STAGING :=
              new_storage_buffer HostVisible [TRANSFER_SRC_BIT]
                (buffer_size (sb ! BUFFER_UNIFORM))])"

text \<open>
  \<open>pgraph_vk_init_buffers\<close>. When \<open>bitmap_new\<close> fails it returns at once; the failures
  of the two loops go to the label \<open>fail\<close>.
\<close>

definition pgraph_vk_init_buffers ::
  "Outcomes \<Rightarrow> InitParams \<Rightarrow> Resources \<Rightarrow> PGRAPHVkState \<Rightarrow> bool \<times> Resources \<times> PGRAPHVkState" where
  "pgraph_vk_init_buffers env p w r =
     (let r = r\<lparr>storage_buffers := assign_buffers_before_bitmap p (storage_buffers r),
                bitmap_size := unat (vram_size p div 4096)\<rparr>
      in
      if \<not> bitmap_new_ok env then (False, w, r\<lparr>uploaded_bitmap := None\<rparr>)
      else
        let w = w\<lparr>heap_blocks := heap_blocks w + 1\<rparr>;
            r = r\<lparr>uploaded_bitmap := Some (replicate (bitmap_size r) False)\<rparr>;
            sb = assign_buffers_after_bitmap p (storage_buffers r)
        in
        case create_buffers_loop env w sb 0 of
          (ok, w, sb) \<Rightarrow>
            if \<not> ok then init_buffers_fail w (r\<lparr>storage_buffers := sb\<rparr>)
            else
              (case map_buffers_loop env w sb buffers_to_map of
                 (ok, w, sb) \<Rightarrow>
                   if \<not> ok then init_buffers_fail w (r\<lparr>storage_buffers := sb\<rparr>)
                   else
                     (True, w,
                      r\<lparr>storage_buffers := sb,
                        prim_rewrite_buf := pgraph_prim_rewrite_init (prim_rewrite_buf r)\<rparr>)))"

section \<open>Auxiliary definitions for the proofs\<close>

subsection \<open>What the decomposition emits\<close>

text \<open>
  None of the following is code of the program: \<open>emits\<close> stores a list of indices
  through \<open>emit_vertex\<close>, one after the other; \<open>groups\<close> concatenates the vertices
  a loop body emits at the counter values \<open>i, i + s, i + 2s, \<dots>\<close> for which
  \<open>i + k < count\<close>; the \<open>_body\<close> functions give the vertices one iteration of each
  loop emits, and \<open>decomposed\<close> the whole output of \<open>rewrite_indices\<close>. The lemmas
  of the next section prove that the loops of the program compute exactly these.
\<close>

fun emits :: "PrimRewrite \<Rightarrow> 32 word list \<Rightarrow> error + PrimRewrite" where
  "emits r [] = Inr r"
| "emits r (v # vs) = (case emit_vertex r v of Inl e \<Rightarrow> Inl e | Inr r' \<Rightarrow> emits r' vs)"

definition line_pv :: "32 word \<Rightarrow> 32 word \<Rightarrow> 32 word \<Rightarrow> 32 word list" where
  "line_pv a b p = (if p = a then [a, b] else [b, a])"

definition tri_pv :: "32 word \<Rightarrow> 32 word \<Rightarrow> 32 word \<Rightarrow> 32 word \<Rightarrow> 32 word list" where
  "tri_pv a b c p = (if p = a then [a, b, c] else if p = b then [b, c, a] else [c, a, b])"

function groups :: "(nat \<Rightarrow> 32 word list) \<Rightarrow> nat \<Rightarrow> nat \<Rightarrow> nat \<Rightarrow> nat \<Rightarrow> 32 word list" where
  "groups body k s count i =
     (if i + k < count \<and> 0 < s then body i @ groups body k s count (i + s) else [])"
  by pat_completeness auto
termination
  by (relation "measure (\<lambda>(body, k, s, count, i). count - i)") auto

declare groups.simps [simp del]

definition lines_body :: "32 word list option \<Rightarrow> 32 word \<Rightarrow> bool \<Rightarrow> nat \<Rightarrow> 32 word list" where
  "lines_body idx base lp i =
     (let v0 = idx_at idx i base; v1 = idx_at idx (i + 1) base
      in line_pv v0 v1 (if lp then v1 else v0))"

definition tri_body :: "32 word list option \<Rightarrow> 32 word \<Rightarrow> bool \<Rightarrow> nat \<Rightarrow> 32 word list" where
  "tri_body idx base lp i =
     (let v0 = idx_at idx i base; v1 = idx_at idx (i + 1) base; v2 = idx_at idx (i + 2) base
      in tri_pv v0 v1 v2 (if lp then v2 else v0))"

definition strip_body :: "32 word list option \<Rightarrow> 32 word \<Rightarrow> bool \<Rightarrow> nat \<Rightarrow> 32 word list" where
  "strip_body idx base lp i =
     (let v0 = idx_at idx i base; v1 = idx_at idx (i + 1) base; v2 = idx_at idx (i + 2) base;
          pv = (if lp then v2 else v0)
      in if odd i then tri_pv v1 v0 v2 pv else tri_pv v0 v1 v2 pv)"

definition fan_body :: "32 word list option \<Rightarrow> 32 word \<Rightarrow> bool \<Rightarrow> 32 word \<Rightarrow> nat \<Rightarrow> 32 word list" where
  "fan_body idx base lp hub i =
     (let v1 = idx_at idx (i + 1) base; v2 = idx_at idx (i + 2) base
      in tri_pv hub v1 v2 (if lp then v2 else v1))"

definition quads_body :: "32 word list option \<Rightarrow> 32 word \<Rightarrow> bool \<Rightarrow> nat \<Rightarrow> 32 word list" where
  "quads_body idx base fs i =
     (let v0 = idx_at idx i base; v1 = idx_at idx (i + 1) base;
          v2 = idx_at idx (i + 2) base; v3 = idx_at idx (i + 3) base
      in if fs then [v3, v0, v1, v3, v1, v2] else [v0, v1, v2, v0, v2, v3])"

definition quads_line_body :: "32 word list option \<Rightarrow> 32 word \<Rightarrow> nat \<Rightarrow> 32 word list" where
  "quads_line_body idx base i =
     (let v0 = idx_at idx i base; v1 = idx_at idx (i + 1) base;
          v2 = idx_at idx (i + 2) base; v3 = idx_at idx (i + 3) base
      in [v0, v1, v1, v2, v2, v3, v3, v0])"

definition quad_strip_body :: "32 word list option \<Rightarrow> 32 word \<Rightarrow> bool \<Rightarrow> nat \<Rightarrow> 32 word list" where
  "quad_strip_body idx base fs i =
     (let v0 = idx_at idx i base; v1 = idx_at idx (i + 1) base;
          v2 = idx_at idx (i + 2) base; v3 = idx_at idx (i + 3) base
      in if fs then [v3, v2, v0, v3, v0, v1] else [v0, v1, v2, v2, v1, v3])"

definition quad_strip_line_body :: "32 word list option \<Rightarrow> 32 word \<Rightarrow> nat \<Rightarrow> 32 word list" where
  "quad_strip_line_body idx base i =
     (let v0 = idx_at idx i base; v1 = idx_at idx (i + 1) base;
          v2 = idx_at idx (i + 2) base; v3 = idx_at idx (i + 3) base
      in [v0, v1, v1, v3, v3, v2, v2, v0])"

definition polygon_body :: "32 word list option \<Rightarrow> 32 word \<Rightarrow> 32 word \<Rightarrow> nat \<Rightarrow> 32 word list" where
  "polygon_body idx base hub i = [hub, idx_at idx (i + 1) base, idx_at idx (i + 2) base]"

definition polygon_line_body :: "32 word list option \<Rightarrow> 32 word \<Rightarrow> nat \<Rightarrow> 32 word list" where
  "polygon_line_body idx base i = [idx_at idx i base, idx_at idx (i + 1) base]"

definition decomposed ::
  "PrimAssemblyState \<Rightarrow> 32 word list option \<Rightarrow> 32 word \<Rightarrow> nat \<Rightarrow> 32 word list" where
  "decomposed mode idx base n =
     (case primitive_mode mode of
        PRIM_TYPE_POINTS \<Rightarrow> []
      | PRIM_TYPE_LINES \<Rightarrow> groups (lines_body idx base (last_provoking mode)) 1 2 n 0
      | PRIM_TYPE_LINE_STRIP \<Rightarrow> groups (lines_body idx base (last_provoking mode)) 1 1 n 0
      | PRIM_TYPE_LINE_LOOP \<Rightarrow>
          (if n < 2 then []
           else groups (lines_body idx base (last_provoking mode)) 1 1 n 0 @
                line_pv (idx_at idx (n - 1) base) (idx_at idx 0 base)
                  (if last_provoking mode then idx_at idx 0 base else idx_at idx (n - 1) base))
      | PRIM_TYPE_TRIANGLES \<Rightarrow> groups (tri_body idx base (last_provoking mode)) 2 3 n 0
      | PRIM_TYPE_TRIANGLE_STRIP \<Rightarrow> groups (strip_body idx base (last_provoking mode)) 2 1 n 0
      | PRIM_TYPE_TRIANGLE_FAN \<Rightarrow>
          (if n < 3 then []
           else groups (fan_body idx base (last_provoking mode) (idx_at idx 0 base)) 2 1 n 0)
      | PRIM_TYPE_QUADS \<Rightarrow>
          (if polygon_mode mode = POLY_MODE_LINE
           then groups (quads_line_body idx base) 3 4 n 0
           else groups (quads_body idx base (flat_shading mode)) 3 4 n 0)
      | PRIM_TYPE_QUAD_STRIP \<Rightarrow>
          (if n < 4 then []
           else if polygon_mode mode = POLY_MODE_LINE
           then groups (quad_strip_line_body idx base) 3 2 n 0
           else groups (quad_strip_body idx base (flat_shading mode)) 3 2 n 0)
      | PRIM_TYPE_POLYGON \<Rightarrow>
          (if polygon_mode mode = POLY_MODE_LINE
           then (if n < 2 then []
                 else groups (polygon_line_body idx base) 1 1 n 0 @
                      [idx_at idx (n - 1) base, idx_at idx 0 base])
           else (if n < 3 then []
                 else groups (polygon_body idx base (idx_at idx 0 base)) 2 1 n 0)))"

text \<open>The number of indices each decomposition emits for \<open>n\<close> input indices.\<close>

definition produced :: "ShaderPrimitiveMode \<Rightarrow> ShaderPolygonMode \<Rightarrow> nat \<Rightarrow> nat" where
  "produced pmode pgmode n =
     (case pmode of
        PRIM_TYPE_POINTS \<Rightarrow> 0
      | PRIM_TYPE_LINES \<Rightarrow> 2 * (n div 2)
      | PRIM_TYPE_LINE_STRIP \<Rightarrow> 2 * (n - 1)
      | PRIM_TYPE_LINE_LOOP \<Rightarrow> (if n < 2 then 0 else 2 * n)
      | PRIM_TYPE_TRIANGLES \<Rightarrow> 3 * (n div 3)
      | PRIM_TYPE_TRIANGLE_STRIP \<Rightarrow> 3 * (n - 2)
      | PRIM_TYPE_TRIANGLE_FAN \<Rightarrow> 3 * (n - 2)
      | PRIM_TYPE_QUADS \<Rightarrow> (if pgmode = POLY_MODE_LINE then 8 else 6) * (n div 4)
      | PRIM_TYPE_QUAD_STRIP \<Rightarrow>
          (if n < 4 then 0 else (if pgmode = POLY_MODE_LINE then 8 else 6) * ((n - 2) div 2))
      | PRIM_TYPE_POLYGON \<Rightarrow>
          (if pgmode = POLY_MODE_LINE then (if n < 2 then 0 else 2 * n) else 3 * (n - 2)))"

subsection \<open>Scratch buffers, views and inputs\<close>

text \<open>
  A scratch buffer as \<open>pgraph_prim_rewrite_init\<close> and \<open>ensure_capacity\<close> leave it: a null
  pointer with capacity zero, or an array of \<open>capacity\<close> elements.
\<close>

definition buf_ok :: "PrimRewriteBuf \<Rightarrow> bool" where
  "buf_ok buf =
     (case data buf of None \<Rightarrow> capacity buf = 0 | Some a \<Rightarrow> length a = unat (capacity buf))"

text \<open>
  The index sequence a caller reads from a view: the first \<open>num_indices\<close> elements of the
  array it points to. \<open>rewritten\<close> is that sequence for the result of an entry point.
\<close>

definition view :: "PrimRewrite \<Rightarrow> 32 word list" where
  "view r = (case indices r of None \<Rightarrow> [] | Some a \<Rightarrow> take (num_indices r) a)"

definition rewritten :: "error + (PrimRewriteBuf \<times> PrimRewrite) \<Rightarrow> error + 32 word list" where
  "rewritten res = (case res of Inl e \<Rightarrow> Inl e | Inr (buf, r) \<Rightarrow> Inr (view r))"

text \<open>The condition both entry points assert.\<close>

definition assert_ok :: "PrimAssemblyState \<Rightarrow> bool" where
  "assert_ok mode =
     (polygon_mode mode \<noteq> POLY_MODE_POINT \<or> primitive_mode mode \<noteq> PRIM_TYPE_POLYGON)"

text \<open>
  The indices emitted for a list of ranges, each range taken on its own; the number of
  input indices of a list of ranges; and the explicit index sequence
  \<open>start, start + 1, \<dots>, start + cnt - 1\<close> a range stands for.
\<close>

definition ranges_out :: "PrimAssemblyState \<Rightarrow> (32 word \<times> 32 word) list \<Rightarrow> 32 word list" where
  "ranges_out mode ranges = concat (map (\<lambda>(start, cnt). decomposed mode None start (unat cnt)) ranges)"

definition total_count :: "(32 word \<times> 32 word) list \<Rightarrow> nat" where
  "total_count ranges = sum_list (map (\<lambda>(start, cnt). unat cnt) ranges)"

definition sequential_indices :: "32 word \<Rightarrow> 32 word \<Rightarrow> 32 word list" where
  "sequential_indices start cnt = map (\<lambda>i. start + of_nat i) [0..<unat cnt]"

subsection \<open>Buffer set manager\<close>

text \<open>
  A renderer state whose index staging buffer is created and mapped, has the given size,
  holds zero bytes and has bump offset 0; the other buffers are not created.
\<close>

definition staging_example :: "64 word \<Rightarrow> PGRAPHVkState" where
  "staging_example bytes =
     \<lparr>storage_buffers =
        (replicate BUFFER_COUNT
           \<lparr>buffer = None, usage = [], alloc_info = DeviceLocal, allocation = None,
            buffer_offset = 0, buffer_size = 0, mapped = None\<rparr>)
        [BUFFER_INDEX_STAGING :=
           \<lparr>buffer = Some 0, usage = [TRANSFER_SRC_BIT], alloc_info = HostVisible,
            allocation = Some 0, buffer_offset = 0, buffer_size = bytes,
            mapped = Some (replicate (unat bytes) 0)\<rparr>],
      uploaded_bitmap = None, bitmap_size = 0,
      prim_rewrite_buf = \<lparr>data = None, capacity = 0\<rparr>\<rparr>"

text \<open>
  How many entries of the buffer array hold the buffer handle \<open>h\<close>, and how many are
  mapped through the allocation handle \<open>h\<close>.
\<close>

definition holders :: "StorageBuffer list \<Rightarrow> nat \<Rightarrow> nat" where
  "holders sb h = length (filter (\<lambda>b. buffer b = Some h) sb)"

definition mappers :: "StorageBuffer list \<Rightarrow> nat \<Rightarrow> nat" where
  "mappers sb h = length (filter (\<lambda>b. mapped b \<noteq> None \<and> allocation b = Some h) sb)"

text \<open>
  Every live buffer and every live mapping of the allocator is held by an entry of the
  buffer array, as often as it is live.
\<close>

definition tracked :: "Resources \<Rightarrow> StorageBuffer list \<Rightarrow> bool" where
  "tracked w sb =
     ((\<forall>h. count_list (vma_buffers w) h \<le> holders sb h) \<and>
      (\<forall>h. count_list (vma_mappings w) h \<le> mappers sb h))"

definition cleared :: "StorageBuffer \<Rightarrow> bool" where
  "cleared b = (buffer b = None \<and> allocation b = None \<and> mapped b = None)"

text \<open>One iteration of the loop under \<open>fail\<close>, on the entry \<open>b\<close>.\<close>

definition release_buffer :: "Resources \<Rightarrow> StorageBuffer \<Rightarrow> Resources \<times> StorageBuffer" where
  "release_buffer w b =
     destroy_buffer (if mapped b \<noteq> None then vmaUnmapMemory w (allocation b) else w)
       (if mapped b \<noteq> None then b\<lparr>mapped := None\<rparr> else b)"

text \<open>
  The state \<open>pgraph_vk_init_buffers\<close> is called on: an array of \<open>BUFFER_COUNT\<close> entries
  without handles or mappings, no bitmap, and nothing live in the environment.
\<close>

definition fresh_state :: "Resources \<Rightarrow> PGRAPHVkState \<Rightarrow> bool" where
  "fresh_state w r =
     (length (storage_buffers r) = BUFFER_COUNT \<and>
      (\<forall>b\<in>set (storage_buffers r). cleared b) \<and>
      uploaded_bitmap r = None \<and>
      vma_buffers w = [] \<and> vma_mappings w = [] \<and> heap_blocks w = 0)"

section \<open>The decomposition loops emit what \<open>decomposed\<close> lists\<close>

lemma emits_append:
  "emits r (xs @ ys) = (case emits r xs of Inl e \<Rightarrow> Inl e | Inr r' \<Rightarrow> emits r' ys)"
  by (induction xs arbitrary: r) (auto split: sum.splits)

lemma emit_line_emits: "emit_line r a b = emits r [a, b]"
  by (simp add: emit_line_def and_then_def split: sum.splits)

lemma emit_tri_emits: "emit_tri r a b c = emits r [a, b, c]"
  by (simp add: emit_tri_def and_then_def split: sum.splits)

lemma emit_line_pv_emits: "emit_line_pv r a b p = emits r (line_pv a b p)"
  by (simp add: emit_line_pv_def line_pv_def emit_line_emits)

lemma emit_tri_pv_emits: "emit_tri_pv r a b c p = emits r (tri_pv a b c p)"
  by (simp add: emit_tri_pv_def tri_pv_def emit_tri_emits)

lemma emits_step:
  assumes "m = emits r xs" and "\<And>r'. m = Inr r' \<Longrightarrow> f r' = emits r' ys"
  shows "(case m of Inl e \<Rightarrow> Inl e | Inr r' \<Rightarrow> f r') = emits r (xs @ ys)"
  using assms by (auto simp: emits_append split: sum.splits)

lemma emits_bind:
  "(case emits r xs of Inl e \<Rightarrow> Inl e | Inr r' \<Rightarrow> emits r' ys) = emits r (xs @ ys)"
  "and_then (emits r xs) (\<lambda>r'. emits r' ys) = emits r (xs @ ys)"
  by (simp_all add: emits_append and_then_def)

lemma groups_step: "i + k < count \<Longrightarrow> 0 < s \<Longrightarrow> groups body k s count i = body i @ groups body k s count (i + s)"
  by (subst groups.simps) simp

lemma groups_stop: "\<not> i + k < count \<Longrightarrow> groups body k s count i = []"
  by (subst groups.simps) simp

declare emits.simps [simp del]

lemma rewrite_lines_loop_emits:
  "rewrite_lines_loop r idx base count lp i = emits r (groups (lines_body idx base lp) 1 2 count i)"
proof (induction r idx base count lp i rule: rewrite_lines_loop.induct)
  case (1 r idx base count lp i)
  show ?case
  proof (cases "i + 1 < count")
    case True
    show ?thesis
      apply (subst rewrite_lines_loop.simps)
      apply (simp only: True if_True Let_def groups_step[OF True zero_less_numeral])
      apply (rule emits_step)
       apply (simp add: lines_body_def emit_line_pv_emits Let_def)
      apply (erule 1[OF True refl refl refl])
      done
  next
    case False
    then show ?thesis
      by (subst rewrite_lines_loop.simps) (simp add: groups_stop emits.simps)
  qed
qed

lemma emits_closed:
  "indices r = Some a \<Longrightarrow> num_indices r \<le> length a \<Longrightarrow>
   emits r vs =
     (if num_indices r + length vs \<le> length a
      then Inr (r\<lparr>indices := Some (take (num_indices r) a @ vs @ drop (num_indices r + length vs) a),
                  num_indices := num_indices r + length vs\<rparr>)
      else Inl OutOfBounds)"
proof (induction vs arbitrary: r a)
  case Nil
  then show ?case by (cases r) (simp add: emits.simps)
next
  case (Cons v vs)
  show ?case
  proof (cases "num_indices r < length a")
    case True
    let ?r' = "r\<lparr>indices := Some (a[num_indices r := v]), num_indices := num_indices r + 1\<rparr>"
    have ev: "emit_vertex r v = Inr ?r'" using Cons.prems True by (simp add: emit_vertex_def)
    have "emits ?r' vs = (if num_indices ?r' + length vs \<le> length (a[num_indices r := v])
      then Inr (?r'\<lparr>indices := Some (take (num_indices ?r') (a[num_indices r := v]) @ vs @ drop (num_indices ?r' + length vs) (a[num_indices r := v])),
                  num_indices := num_indices ?r' + length vs\<rparr>)
      else Inl OutOfBounds)"
      by (rule Cons.IH) (use True in auto)
    then show ?thesis using ev True
      by (auto simp: emits.simps take_Suc_conv_app_nth upd_conv_take_nth_drop ac_simps)
  next
    case False
    then show ?thesis using Cons.prems by (simp add: emits.simps emit_vertex_def)
  qed
qed

lemmas body_defs =
  lines_body_def tri_body_def strip_body_def fan_body_def quads_body_def quads_line_body_def
  quad_strip_body_def quad_strip_line_body_def polygon_body_def polygon_line_body_def

lemmas emit_emits = emit_line_emits emit_tri_emits emit_line_pv_emits emit_tri_pv_emits emits_bind

lemma rewrite_line_strip_loop_emits:
  "rewrite_line_strip_loop r idx base count lp i = emits r (groups (lines_body idx base lp) 1 1 count i)"
proof (induction r idx base count lp i rule: rewrite_line_strip_loop.induct)
  case (1 r idx base count lp i)
  show ?case
  proof (cases "i + 1 < count")
    case True
    show ?thesis
      apply (subst rewrite_line_strip_loop.simps)
      apply (simp only: True if_True Let_def groups_step[OF True zero_less_one])
      apply (rule emits_step)
       apply (simp add: body_defs emit_emits Let_def cong: sum.case_cong)
      apply (erule 1[OF True refl refl refl])
      done
  next
    case False
    then show ?thesis
      by (subst rewrite_line_strip_loop.simps) (simp add: groups_stop emits.simps)
  qed
qed

lemma rewrite_line_loop_loop_emits:
  "rewrite_line_loop_loop r idx base count lp i = emits r (groups (lines_body idx base lp) 1 1 count i)"
proof (induction r idx base count lp i rule: rewrite_line_loop_loop.induct)
  case (1 r idx base count lp i)
  show ?case
  proof (cases "i + 1 < count")
    case True
    show ?thesis
      apply (subst rewrite_line_loop_loop.simps)
      apply (simp only: True if_True Let_def groups_step[OF True zero_less_one])
      apply (rule emits_step)
       apply (simp add: body_defs emit_emits Let_def cong: sum.case_cong)
      apply (erule 1[OF True refl refl refl])
      done
  next
    case False
    then show ?thesis
      by (subst rewrite_line_loop_loop.simps) (simp add: groups_stop emits.simps)
  qed
qed

lemma rewrite_triangles_loop_emits:
  "rewrite_triangles_loop r idx base count lp i = emits r (groups (tri_body idx base lp) 2 3 count i)"
proof (induction r idx base count lp i rule: rewrite_triangles_loop.induct)
  case (1 r idx base count lp i)
  show ?case
  proof (cases "i + 2 < count")
    case True
    show ?thesis
      apply (subst rewrite_triangles_loop.simps)
      apply (simp only: True if_True Let_def groups_step[OF True zero_less_numeral])
      apply (rule emits_step)
       apply (simp add: body_defs emit_emits Let_def cong: sum.case_cong)
      apply (erule 1[OF True refl refl refl refl])
      done
  next
    case False
    then show ?thesis
      by (subst rewrite_triangles_loop.simps) (simp add: groups_stop emits.simps)
  qed
qed

lemma rewrite_triangle_strip_loop_emits:
  "rewrite_triangle_strip_loop r idx base count lp i = emits r (groups (strip_body idx base lp) 2 1 count i)"
proof (induction r idx base count lp i rule: rewrite_triangle_strip_loop.induct)
  case (1 r idx base count lp i)
  show ?case
  proof (cases "i + 2 < count")
    case True
    show ?thesis
      apply (subst rewrite_triangle_strip_loop.simps)
      apply (simp only: True if_True Let_def groups_step[OF True zero_less_one])
      apply (rule emits_step)
       apply (simp add: body_defs emit_emits Let_def cong: sum.case_cong)
      apply (erule 1[OF True refl refl refl refl])
      done
  next
    case False
    then show ?thesis
      by (subst rewrite_triangle_strip_loop.simps) (simp add: groups_stop emits.simps)
  qed
qed

lemma rewrite_triangle_fan_loop_emits:
  "rewrite_triangle_fan_loop r idx base count lp hub i = emits r (groups (fan_body idx base lp hub) 2 1 count i)"
proof (induction r idx base count lp hub i rule: rewrite_triangle_fan_loop.induct)
  case (1 r idx base count lp hub i)
  show ?case
  proof (cases "i + 2 < count")
    case True
    show ?thesis
      apply (subst rewrite_triangle_fan_loop.simps)
      apply (simp only: True if_True Let_def groups_step[OF True zero_less_one])
      apply (rule emits_step)
       apply (simp add: body_defs emit_emits Let_def cong: sum.case_cong)
      apply (erule 1[OF True refl refl refl])
      done
  next
    case False
    then show ?thesis
      by (subst rewrite_triangle_fan_loop.simps) (simp add: groups_stop emits.simps)
  qed
qed

lemma rewrite_quads_loop_emits:
  "rewrite_quads_loop r idx base count fs i = emits r (groups (quads_body idx base fs) 3 4 count i)"
proof (induction r idx base count fs i rule: rewrite_quads_loop.induct)
  case (1 r idx base count fs i)
  show ?case
  proof (cases "i + 3 < count")
    case True
    show ?thesis
      apply (subst rewrite_quads_loop.simps)
      apply (simp only: True if_True Let_def groups_step[OF True zero_less_numeral])
      apply (rule emits_step)
       apply (simp add: body_defs emit_emits Let_def cong: sum.case_cong)
      apply (erule 1[OF True refl refl refl refl])
      done
  next
    case False
    then show ?thesis
      by (subst rewrite_quads_loop.simps) (simp add: groups_stop emits.simps)
  qed
qed

lemma rewrite_quads_line_loop_emits:
  "rewrite_quads_line_loop r idx base count i = emits r (groups (quads_line_body idx base) 3 4 count i)"
proof (induction r idx base count i rule: rewrite_quads_line_loop.induct)
  case (1 r idx base count i)
  show ?case
  proof (cases "i + 3 < count")
    case True
    show ?thesis
      apply (subst rewrite_quads_line_loop.simps)
      apply (simp only: True if_True Let_def groups_step[OF True zero_less_numeral])
      apply (rule emits_step)
       apply (simp add: body_defs emit_emits Let_def cong: sum.case_cong)
      apply (erule 1[OF True refl refl refl refl])
      done
  next
    case False
    then show ?thesis
      by (subst rewrite_quads_line_loop.simps) (simp add: groups_stop emits.simps)
  qed
qed

lemma rewrite_quad_strip_loop_emits:
  "rewrite_quad_strip_loop r idx base count fs i = emits r (groups (quad_strip_body idx base fs) 3 2 count i)"
proof (induction r idx base count fs i rule: rewrite_quad_strip_loop.induct)
  case (1 r idx base count fs i)
  show ?case
  proof (cases "i + 3 < count")
    case True
    show ?thesis
      apply (subst rewrite_quad_strip_loop.simps)
      apply (simp only: True if_True Let_def groups_step[OF True zero_less_numeral])
      apply (rule emits_step)
       apply (simp add: body_defs emit_emits Let_def cong: sum.case_cong)
      apply (erule 1[OF True refl refl refl refl])
      done
  next
    case False
    then show ?thesis
      by (subst rewrite_quad_strip_loop.simps) (simp add: groups_stop emits.simps)
  qed
qed

lemma rewrite_quad_strip_line_loop_emits:
  "rewrite_quad_strip_line_loop r idx base count i = emits r (groups (quad_strip_line_body idx base) 3 2 count i)"
proof (induction r idx base count i rule: rewrite_quad_strip_line_loop.induct)
  case (1 r idx base count i)
  show ?case
  proof (cases "i + 3 < count")
    case True
    show ?thesis
      apply (subst rewrite_quad_strip_line_loop.simps)
      apply (simp only: True if_True Let_def groups_step[OF True zero_less_numeral])
      apply (rule emits_step)
       apply (simp add: body_defs emit_emits Let_def cong: sum.case_cong)
      apply (erule 1[OF True refl refl refl refl])
      done
  next
    case False
    then show ?thesis
      by (subst rewrite_quad_strip_line_loop.simps) (simp add: groups_stop emits.simps)
  qed
qed

lemma rewrite_polygon_loop_emits:
  "rewrite_polygon_loop r idx base count hub i = emits r (groups (polygon_body idx base hub) 2 1 count i)"
proof (induction r idx base count hub i rule: rewrite_polygon_loop.induct)
  case (1 r idx base count hub i)
  show ?case
  proof (cases "i + 2 < count")
    case True
    show ?thesis
      apply (subst rewrite_polygon_loop.simps)
      apply (simp only: True if_True Let_def groups_step[OF True zero_less_one])
      apply (rule emits_step)
       apply (simp add: body_defs emit_emits Let_def cong: sum.case_cong)
      apply (erule 1[OF True refl refl])
      done
  next
    case False
    then show ?thesis
      by (subst rewrite_polygon_loop.simps) (simp add: groups_stop emits.simps)
  qed
qed

lemma rewrite_polygon_line_loop_emits:
  "rewrite_polygon_line_loop r idx base count i = emits r (groups (polygon_line_body idx base) 1 1 count i)"
proof (induction r idx base count i rule: rewrite_polygon_line_loop.induct)
  case (1 r idx base count i)
  show ?case
  proof (cases "i + 1 < count")
    case True
    show ?thesis
      apply (subst rewrite_polygon_line_loop.simps)
      apply (simp only: True if_True Let_def groups_step[OF True zero_less_one])
      apply (rule emits_step)
       apply (simp add: body_defs emit_emits Let_def cong: sum.case_cong)
      apply (erule 1[OF True ])
      done
  next
    case False
    then show ?thesis
      by (subst rewrite_polygon_line_loop.simps) (simp add: groups_stop emits.simps)
  qed
qed

lemmas loop_emits =
  rewrite_lines_loop_emits rewrite_line_strip_loop_emits rewrite_line_loop_loop_emits
  rewrite_triangles_loop_emits rewrite_triangle_strip_loop_emits rewrite_triangle_fan_loop_emits
  rewrite_quads_loop_emits rewrite_quads_line_loop_emits rewrite_quad_strip_loop_emits
  rewrite_quad_strip_line_loop_emits rewrite_polygon_loop_emits rewrite_polygon_line_loop_emits

lemmas rewrite_defs =
  rewrite_lines_def rewrite_line_strip_def rewrite_line_loop_def rewrite_triangles_def
  rewrite_triangle_strip_def rewrite_triangle_fan_def rewrite_quads_def rewrite_quads_line_def
  rewrite_quad_strip_def rewrite_quad_strip_line_def rewrite_polygon_def rewrite_polygon_line_def

lemma rewrite_indices_emits:
  "primitive_mode mode \<noteq> PRIM_TYPE_POINTS \<Longrightarrow>
   rewrite_indices r mode idx base n = emits r (decomposed mode idx base n)"
  by (cases "primitive_mode mode")
     (simp_all add: rewrite_indices_def decomposed_def rewrite_defs loop_emits emit_emits
        emits.simps(1) Let_def cong: sum.case_cong)

lemma ceil_div_step:
  fixes d s :: nat
  assumes "0 < s" and "0 < d"
  shows "(d + (s - 1)) div s = Suc ((d - s + (s - 1)) div s)"
proof (cases "s \<le> d")
  case True
  then have "d + (s - 1) = (d - s + (s - 1)) + s" by simp
  then show ?thesis using assms by (simp only: div_add_self2)
next
  case False
  then have "d - s = 0" and "s \<le> d + (s - 1)" and "d + (s - 1) < 2 * s"
    using assms by simp_all
  then show ?thesis
    using assms by (simp add: div_nat_eqI)
qed

lemma groups_length:
  assumes "\<And>j. length (body j) = m" and "0 < s"
  shows "length (groups body k s count i) = m * ((count - (i + k) + (s - 1)) div s)"
  using assms
proof (induction body k s count i rule: groups.induct)
  case (1 body k s count i)
  show ?case
  proof (cases "i + k < count")
    case True
    have "length (groups body k s count (i + s)) = m * ((count - (i + s + k) + (s - 1)) div s)"
      using "1.IH" True "1.prems" by simp
    moreover have "(count - (i + k) + (s - 1)) div s = Suc ((count - (i + k) - s + (s - 1)) div s)"
      using True "1.prems"(2) by (intro ceil_div_step) simp_all
    moreover have "count - (i + k) - s = count - (i + s + k)" by simp
    ultimately show ?thesis
      using True "1.prems" by (simp add: groups_step)
  next
    case False
    then have "count - (i + k) = 0" by simp
    then show ?thesis using False "1.prems"(2) by (simp add: groups_stop)
  qed
qed

lemma body_lengths:
  "length (lines_body idx base lp j) = 2"
  "length (tri_body idx base lp j) = 3"
  "length (strip_body idx base lp j) = 3"
  "length (fan_body idx base lp hub j) = 3"
  "length (quads_body idx base fs j) = 6"
  "length (quads_line_body idx base j) = 8"
  "length (quad_strip_body idx base fs j) = 6"
  "length (quad_strip_line_body idx base j) = 8"
  "length (polygon_body idx base hub j) = 3"
  "length (polygon_line_body idx base j) = 2"
  by (simp_all add: body_defs Let_def line_pv_def tri_pv_def)

lemma length_decomposed:
  "length (decomposed mode idx base n) = produced (primitive_mode mode) (polygon_mode mode) n"
  apply (cases "primitive_mode mode")
  apply (simp_all add: decomposed_def produced_def groups_length [OF body_lengths(1)]
        groups_length [OF body_lengths(2)]  groups_length [OF body_lengths(3)]
        groups_length [OF body_lengths(4)]  groups_length [OF body_lengths(5)]
        groups_length [OF body_lengths(6)]  groups_length [OF body_lengths(7)]
        groups_length [OF body_lengths(8)]  groups_length [OF body_lengths(9)]
        groups_length [OF body_lengths(10)] line_pv_def)
     apply (presburger | auto)+
  done

lemma unat_sub_num:
  fixes c :: "32 word"
  shows "1 \<le> c \<Longrightarrow> unat (c - 1) = unat c - 1"
    and "2 \<le> c \<Longrightarrow> unat (c - 2) = unat c - 2"
  by (simp_all add: unat_sub)

lemma unat_mult_num:
  fixes x :: "32 word"
  shows "unat x < 2 ^ 30 \<Longrightarrow> unat (x * 2) = unat x * 2"
    and "unat x < 2 ^ 30 \<Longrightarrow> unat (x * 3) = unat x * 3"
    and "unat x < 2 ^ 29 \<Longrightarrow> unat (x * 6) = unat x * 6"
    and "unat x < 2 ^ 29 \<Longrightarrow> unat (x * 8) = unat x * 8"
  by (simp_all add: unat_mult_lem [THEN iffD1])

lemma word_le_num:
  fixes c :: "32 word"
  shows "(2 \<le> c) = (2 \<le> unat c)" "(3 \<le> c) = (3 \<le> unat c)" "(4 \<le> c) = (4 \<le> unat c)"
  by (simp_all add: word_le_nat_alt)

lemma unat_strip_bound:
  fixes c :: "32 word"
  assumes "unat c < 2 ^ 30"
  shows "unat (if 2 \<le> c then (c - 1) * 2 else 0) = 2 * (unat c - 1)"
    and "unat (if 2 \<le> c then c * 2 else 0) = (if unat c < 2 then 0 else 2 * unat c)"
    and "unat (if 3 \<le> c then (c - 2) * 3 else 0) = 3 * (unat c - 2)"
proof -
  have s1: "unat (c - 1) = unat c - 1" if "2 \<le> c"
    using that by (simp add: unat_sub word_le_nat_alt)
  have "unat ((c - 1) * 2) = unat (c - 1) * 2" if "2 \<le> c"
    by (rule unat_mult_num) (use assms that in \<open>simp add: s1\<close>)
  with s1 show "unat (if 2 \<le> c then (c - 1) * 2 else 0) = 2 * (unat c - 1)"
    by (auto simp: word_le_num simp del: left_diff_distrib)
  show "unat (if 2 \<le> c then c * 2 else 0) = (if unat c < 2 then 0 else 2 * unat c)"
    using assms by (auto simp: word_le_num unat_mult_num)
  have s2: "unat (c - 2) = unat c - 2" if "3 \<le> c"
    using that by (simp add: unat_sub word_le_nat_alt)
  have "unat ((c - 2) * 3) = unat (c - 2) * 3" if "3 \<le> c"
    by (rule unat_mult_num) (use assms that in \<open>simp add: s2\<close>)
  with s2 show "unat (if 3 \<le> c then (c - 2) * 3 else 0) = 3 * (unat c - 2)"
    by (auto simp: word_le_num)
qed

lemma unat_quads_bound:
  fixes c :: "32 word"
  assumes "unat c < 2 ^ 30"
  shows "unat (c div 4 * 8) = 8 * (unat c div 4)"
    and "unat (c div 4 * 6) = 6 * (unat c div 4)"
    and "unat (if 4 \<le> c then (c - 2) div 2 * 8 else 0) =
           (if unat c < 4 then 0 else 8 * ((unat c - 2) div 2))"
    and "unat (if 4 \<le> c then (c - 2) div 2 * 6 else 0) =
           (if unat c < 4 then 0 else 6 * ((unat c - 2) div 2))"
proof -
  have q: "unat (c div 4) < 2 ^ 29" using assms by (simp add: unat_div)
  show "unat (c div 4 * 8) = 8 * (unat c div 4)" "unat (c div 4 * 6) = 6 * (unat c div 4)"
    using q by (simp_all add: unat_mult_num unat_div)
  have h: "unat ((c - 2) div 2) = (unat c - 2) div 2" if "4 \<le> c"
    using that by (simp add: unat_div unat_sub word_le_num)
  then have "unat ((c - 2) div 2) < 2 ^ 29" if "4 \<le> c"
    using that assms by simp
  then show "unat (if 4 \<le> c then (c - 2) div 2 * 8 else 0) =
           (if unat c < 4 then 0 else 8 * ((unat c - 2) div 2))"
    and "unat (if 4 \<le> c then (c - 2) div 2 * 6 else 0) =
           (if unat c < 4 then 0 else 6 * ((unat c - 2) div 2))"
    using h by (auto simp: unat_mult_num word_le_num)
qed

lemma unat_max_output_indices:
  fixes c :: "32 word"
  assumes "unat c < 2 ^ 30"
  shows "unat (max_output_indices pmode pgmode c) =
     (case pmode of
        PRIM_TYPE_POINTS \<Rightarrow> 0
      | PRIM_TYPE_LINES \<Rightarrow> unat c
      | PRIM_TYPE_TRIANGLES \<Rightarrow> unat c
      | _ \<Rightarrow> produced pmode pgmode (unat c))"
  by (cases pmode; cases "pgmode = POLY_MODE_LINE";
      simp only: max_output_indices_def produced_def ShaderPrimitiveMode.case
        unat_strip_bound [OF assms] unat_quads_bound [OF assms] if_True if_False unat_0
        simp_thms;
      simp)

lemma ensure_capacity_ok:
  assumes "buf_ok buf" and "needed \<noteq> 0"
  shows "\<exists>a. data (ensure_capacity buf needed) = Some a \<and>
             length a = unat (capacity (ensure_capacity buf needed)) \<and>
             unat needed \<le> length a"
proof (cases "needed \<le> capacity buf")
  case True
  with assms(2) have "capacity buf \<noteq> 0" by auto
  with assms(1) True show ?thesis
    by (auto simp: buf_ok_def ensure_capacity_def word_le_nat_alt split: option.splits)
next
  case False
  then show ?thesis
    by (auto simp: ensure_capacity_def g_realloc_def Let_def word_le_nat_alt max_def)
qed

lemma buf_ok_ensure_capacity: "buf_ok buf \<Longrightarrow> buf_ok (ensure_capacity buf needed)"
  by (auto simp: buf_ok_def ensure_capacity_def g_realloc_def Let_def)

lemma produced_le_max:
  fixes c :: "32 word"
  assumes "unat c < 2 ^ 30"
  shows "produced pmode pgmode (unat c) \<le> unat (max_output_indices pmode pgmode c)"
  by (cases pmode) (simp_all add: unat_max_output_indices [OF assms] produced_def)

lemma decomposed_0: "decomposed mode idx base 0 = []"
  by (cases "primitive_mode mode") (simp_all add: decomposed_def groups_stop)

lemma rewritten_simps:
  "rewritten (Inl e) = Inl e" "rewritten (Inr (buf, r)) = Inr (view r)"
  by (simp_all add: rewritten_def)

lemma needs_rewrite_not_points: "needs_rewrite mode \<Longrightarrow> primitive_mode mode \<noteq> PRIM_TYPE_POINTS"
  by (auto simp: needs_rewrite_def)

lemma emits_fresh:
  assumes "length vs \<le> length a"
  shows "emits \<lparr>indices = Some a, num_indices = 0\<rparr> vs =
           Inr \<lparr>indices = Some (vs @ drop (length vs) a), num_indices = length vs\<rparr>"
  using emits_closed [of "\<lparr>indices = Some a, num_indices = 0\<rparr>" a vs] assms by simp

lemma indexed_char:
  assumes ok: "buf_ok buf" and n: "unat n < 2 ^ 30" and a: "assert_ok mode"
  shows "pgraph_prim_rewrite_indexed buf mode idx n =
     (if \<not> needs_rewrite mode \<or> max_output_indices (primitive_mode mode) (polygon_mode mode) n = 0
      then Inr (buf, \<lparr>indices = None, num_indices = 0\<rparr>)
      else
        let buf' = ensure_capacity buf (max_output_indices (primitive_mode mode) (polygon_mode mode) n);
            out = decomposed mode idx 0 (unat n);
            arr = out @ drop (length out) (the (data buf'))
        in Inr (buf'\<lparr>data := Some arr\<rparr>, \<lparr>indices = Some arr, num_indices = length out\<rparr>))"
proof (cases "\<not> needs_rewrite mode \<or> max_output_indices (primitive_mode mode) (polygon_mode mode) n = 0")
  case True
  then show ?thesis using a by (auto simp: pgraph_prim_rewrite_indexed_def assert_ok_def Let_def)
next
  case False
  define mx where "mx = max_output_indices (primitive_mode mode) (polygon_mode mode) n"
  define out where "out = decomposed mode idx 0 (unat n)"
  from False have nr: "needs_rewrite mode" and mx0: "mx \<noteq> 0" by (auto simp: mx_def)
  obtain arr where arr: "data (ensure_capacity buf mx) = Some arr" "unat mx \<le> length arr"
    using ensure_capacity_ok [OF ok mx0] by blast
  have "length out \<le> unat mx"
    unfolding out_def mx_def length_decomposed by (rule produced_le_max [OF n])
  with arr have fit: "length out \<le> length arr" by simp
  have "rewrite_indices \<lparr>indices = Some arr, num_indices = 0\<rparr> mode idx 0 (unat n) =
          Inr \<lparr>indices = Some (out @ drop (length out) arr), num_indices = length out\<rparr>"
    by (simp add: rewrite_indices_emits [OF needs_rewrite_not_points [OF nr]] emits_fresh [OF fit]
          flip: out_def)
  then show ?thesis
    using nr mx0 a arr
    by (simp add: pgraph_prim_rewrite_indexed_def assert_ok_def Let_def flip: mx_def out_def)
qed

lemma rewrite_ranges_loop_emits:
  assumes "primitive_mode mode \<noteq> PRIM_TYPE_POINTS"
  shows "rewrite_ranges_loop r mode ranges = emits r (ranges_out mode ranges)"
proof (induction ranges arbitrary: r)
  case Nil
  show ?case by (simp add: ranges_out_def emits.simps)
next
  case (Cons x ranges)
  obtain start cnt where x: "x = (start, cnt)" by (cases x)
  show ?case
  proof (cases "cnt = 0")
    case True
    then show ?thesis using Cons.IH [of r] by (simp add: x ranges_out_def decomposed_0)
  next
    case False
    have "ranges_out mode (x # ranges) = decomposed mode None start (unat cnt) @ ranges_out mode ranges"
      by (simp add: x ranges_out_def)
    then show ?thesis
      using False Cons.IH
      by (simp add: x rewrite_indices_emits [OF assms] emits_append cong: sum.case_cong)
  qed
qed

lemma total_max_output_loop_acc:
  "total_max_output_loop mode ranges acc = acc + total_max_output_loop mode ranges 0"
proof (induction ranges arbitrary: acc)
  case Nil
  show ?case by simp
next
  case (Cons x ranges)
  obtain start cnt where x: "x = (start, cnt)" by (cases x)
  show ?case
    unfolding x total_max_output_loop.simps
    by (subst Cons.IH, subst (2) Cons.IH) (simp add: add.assoc)
qed

lemma max_output_le:
  fixes c :: "32 word"
  assumes "unat c < 2 ^ 30"
  shows "unat (max_output_indices pmode pgmode c) \<le> 4 * unat c"
  by (cases pmode) (auto simp: unat_max_output_indices [OF assms] produced_def)

lemma ranges_fit:
  assumes "total_count ranges < 2 ^ 30"
  shows "length (ranges_out mode ranges) \<le> unat (total_max_output_loop mode ranges 0) \<and>
         unat (total_max_output_loop mode ranges 0) \<le> 4 * total_count ranges"
  using assms
proof (induction ranges)
  case Nil
  show ?case by (simp add: ranges_out_def)
next
  case (Cons x ranges)
  obtain start cnt where x: "x = (start, cnt)" by (cases x)
  define m where "m = max_output_indices (primitive_mode mode) (polygon_mode mode) cnt"
  define t where "t = total_max_output_loop mode ranges 0"
  from Cons.prems have c: "unat cnt < 2 ^ 30" and rest: "total_count ranges < 2 ^ 30"
    and sum: "unat cnt + total_count ranges < 2 ^ 30"
    by (simp_all add: x total_count_def)
  have m4: "unat m \<le> 4 * unat cnt" unfolding m_def by (rule max_output_le [OF c])
  have ih: "length (ranges_out mode ranges) \<le> unat t" "unat t \<le> 4 * total_count ranges"
    using Cons.IH [OF rest] by (simp_all add: t_def)
  have "unat m + unat t < 2 ^ 32" using m4 ih(2) sum by simp
  then have add: "unat (m + t) = unat m + unat t"
    by (simp add: unat_add_lem [THEN iffD1])
  have tot: "total_max_output_loop mode (x # ranges) 0 = m + t"
    by (simp add: x m_def t_def total_max_output_loop_acc [of mode ranges "max_output_indices _ _ _"])
  have "length (decomposed mode None start (unat cnt)) \<le> unat m"
    unfolding m_def length_decomposed by (rule produced_le_max [OF c])
  then have "length (ranges_out mode (x # ranges)) \<le> unat m + unat t"
    using ih(1) by (simp add: x ranges_out_def)
  moreover have "total_count (x # ranges) = unat cnt + total_count ranges"
    by (simp add: x total_count_def)
  ultimately show ?case
    unfolding tot add using m4 ih(2) by simp
qed

lemma ranges_char:
  assumes ok: "buf_ok buf" and n: "total_count ranges < 2 ^ 30" and a: "assert_ok mode"
  shows "pgraph_prim_rewrite_ranges buf mode ranges =
     (if \<not> needs_rewrite mode \<or> total_max_output_loop mode ranges 0 = 0
      then Inr (buf, \<lparr>indices = None, num_indices = 0\<rparr>)
      else
        let buf' = ensure_capacity buf (total_max_output_loop mode ranges 0);
            out = ranges_out mode ranges;
            arr = out @ drop (length out) (the (data buf'))
        in Inr (buf'\<lparr>data := Some arr\<rparr>, \<lparr>indices = Some arr, num_indices = length out\<rparr>))"
proof (cases "\<not> needs_rewrite mode \<or> total_max_output_loop mode ranges 0 = 0")
  case True
  then show ?thesis using a by (auto simp: pgraph_prim_rewrite_ranges_def assert_ok_def Let_def)
next
  case False
  define mx where "mx = total_max_output_loop mode ranges 0"
  define out where "out = ranges_out mode ranges"
  from False have nr: "needs_rewrite mode" and mx0: "mx \<noteq> 0" by (auto simp: mx_def)
  obtain arr where arr: "data (ensure_capacity buf mx) = Some arr" "unat mx \<le> length arr"
    using ensure_capacity_ok [OF ok mx0] by blast
  have "length out \<le> unat mx"
    unfolding out_def mx_def using ranges_fit [OF n] by simp
  with arr have fit: "length out \<le> length arr" by simp
  have "rewrite_ranges_loop \<lparr>indices = Some arr, num_indices = 0\<rparr> mode ranges =
          Inr \<lparr>indices = Some (out @ drop (length out) arr), num_indices = length out\<rparr>"
    by (simp add: rewrite_ranges_loop_emits [OF needs_rewrite_not_points [OF nr]] emits_fresh [OF fit]
          flip: out_def)
  then show ?thesis
    using nr mx0 a arr
    by (simp add: pgraph_prim_rewrite_ranges_def assert_ok_def Let_def flip: mx_def out_def)
qed

lemma view_fresh: "view \<lparr>indices = Some (out @ rest), num_indices = length out\<rparr> = out"
  by (simp add: view_def)

lemma decomposed_empty:
  fixes n :: "32 word"
  assumes "unat n < 2 ^ 30" and "max_output_indices (primitive_mode mode) (polygon_mode mode) n = 0"
  shows "decomposed mode idx base (unat n) = []"
proof -
  have "length (decomposed mode idx base (unat n)) \<le> unat (0 :: 32 word)"
    unfolding length_decomposed using produced_le_max [OF assms(1)] assms(2) by metis
  then show ?thesis by simp
qed

lemma rewritten_indexed:
  assumes "buf_ok buf" and "unat n < 2 ^ 30" and "assert_ok mode"
  shows "rewritten (pgraph_prim_rewrite_indexed buf mode idx n) =
           Inr (if needs_rewrite mode then decomposed mode idx 0 (unat n) else [])"
  using decomposed_empty [OF assms(2), of mode idx 0]
  by (auto simp: indexed_char [OF assms] rewritten_def Let_def view_fresh view_def)

lemma ranges_out_empty:
  assumes "total_count ranges < 2 ^ 30" and "total_max_output_loop mode ranges 0 = 0"
  shows "ranges_out mode ranges = []"
  using ranges_fit [OF assms(1), of mode] assms(2) by simp

lemma rewritten_ranges:
  assumes "buf_ok buf" and "total_count ranges < 2 ^ 30" and "assert_ok mode"
  shows "rewritten (pgraph_prim_rewrite_ranges buf mode ranges) =
           Inr (if needs_rewrite mode then ranges_out mode ranges else [])"
  using ranges_out_empty [OF assms(2), of mode]
  by (auto simp: ranges_char [OF assms] rewritten_def Let_def view_fresh view_def)

lemma groups_cong:
  assumes "\<And>j. j + k < count \<Longrightarrow> body j = body' j"
  shows "groups body k s count i = groups body' k s count i"
  using assms
proof (induction body k s count i rule: groups.induct)
  case (1 body k s count i)
  show ?case
  proof (cases "i + k < count \<and> 0 < s")
    case True
    then show ?thesis using "1.IH" "1.prems" by (simp add: groups_step)
  next
    case False
    have "groups b k s count i = []" for b
      using False by (subst groups.simps) auto
    then show ?thesis by simp
  qed
qed

lemma decomposed_cong:
  assumes "\<And>i. i < n \<Longrightarrow> idx_at idx i base = idx_at idx' i base'"
  shows "decomposed mode idx base n = decomposed mode idx' base' n"
proof -
  have b: "lines_body idx base lp j = lines_body idx' base' lp j"
          "polygon_line_body idx base j = polygon_line_body idx' base' j" if "j + 1 < n" for lp j
    using that by (simp_all add: body_defs assms)
  have t: "tri_body idx base lp j = tri_body idx' base' lp j"
          "strip_body idx base lp j = strip_body idx' base' lp j"
          "fan_body idx base lp hub j = fan_body idx' base' lp hub j"
          "polygon_body idx base hub j = polygon_body idx' base' hub j" if "j + 2 < n" for lp hub j
    using that by (simp_all add: body_defs assms)
  have q: "quads_body idx base fs j = quads_body idx' base' fs j"
          "quads_line_body idx base j = quads_line_body idx' base' j"
          "quad_strip_body idx base fs j = quad_strip_body idx' base' fs j"
          "quad_strip_line_body idx base j = quad_strip_line_body idx' base' j" if "j + 3 < n" for fs j
    using that by (simp_all add: body_defs assms)
  show ?thesis
    by (cases "primitive_mode mode")
       (simp_all add: decomposed_def assms b t q cong: groups_cong)
qed

lemma idx_at_sequential:
  "i < unat cnt \<Longrightarrow> idx_at (Some (sequential_indices start cnt)) i 0 = idx_at None i start"
  by (simp add: idx_at_def sequential_indices_def)

lemma decomposed_sequential:
  "decomposed mode (Some (sequential_indices start cnt)) 0 (unat cnt) =
   decomposed mode None start (unat cnt)"
  by (rule decomposed_cong) (rule idx_at_sequential)

lemma rewrite_indices_sequential:
  "rewrite_indices r mode (Some (sequential_indices start cnt)) 0 (unat cnt) =
   rewrite_indices r mode None start (unat cnt)"
proof (cases "primitive_mode mode = PRIM_TYPE_POINTS")
  case True
  then show ?thesis by (simp add: rewrite_indices_def)
next
  case False
  then show ?thesis by (simp add: rewrite_indices_emits decomposed_sequential)
qed

lemma max_output_indices_0: "max_output_indices pmode pgmode 0 = 0"
  by (cases pmode) (simp_all add: max_output_indices_def)

lemma single_range_eq:
  "pgraph_prim_rewrite_ranges buf mode [(start, cnt)] =
   pgraph_prim_rewrite_indexed buf mode (Some (sequential_indices start cnt)) cnt"
proof (cases "cnt = 0")
  case True
  then show ?thesis
    by (simp add: pgraph_prim_rewrite_ranges_def pgraph_prim_rewrite_indexed_def Let_def
          max_output_indices_0)
next
  case False
  then show ?thesis
    by (simp add: pgraph_prim_rewrite_ranges_def pgraph_prim_rewrite_indexed_def Let_def
          rewrite_indices_sequential split: sum.splits)
qed

lemmas eval_decomposed =
  decomposed_def groups.simps body_defs idx_at_def line_pv_def tri_pv_def Let_def
  needs_rewrite_def assert_ok_def

lemma buf_ok_init: "buf_ok \<lparr>data = None, capacity = 0\<rparr>"
  by (simp add: buf_ok_def)

lemma rewrite_indices_quads_lp:
  assumes "primitive_mode mode = PRIM_TYPE_QUADS \<or> primitive_mode mode = PRIM_TYPE_QUAD_STRIP"
  shows "rewrite_indices r (mode\<lparr>last_provoking := lp\<rparr>) idx base n = rewrite_indices r mode idx base n"
  using assms by (auto simp: rewrite_indices_def)

lemma rewrite_ranges_loop_quads_lp:
  assumes "primitive_mode mode = PRIM_TYPE_QUADS \<or> primitive_mode mode = PRIM_TYPE_QUAD_STRIP"
  shows "rewrite_ranges_loop r (mode\<lparr>last_provoking := lp\<rparr>) ranges = rewrite_ranges_loop r mode ranges"
proof (induction ranges arbitrary: r)
  case Nil
  show ?case by simp
next
  case (Cons x ranges)
  obtain start cnt where x: "x = (start, cnt)" by (cases x)
  show ?case
    by (simp add: x Cons.IH rewrite_indices_quads_lp [OF assms] cong: sum.case_cong)
qed

lemma total_max_output_loop_lp:
  "total_max_output_loop (mode\<lparr>last_provoking := lp\<rparr>) ranges acc = total_max_output_loop mode ranges acc"
  by (induction ranges arbitrary: acc) auto

lemma entry_points_quads_lp:
  assumes "primitive_mode mode = PRIM_TYPE_QUADS \<or> primitive_mode mode = PRIM_TYPE_QUAD_STRIP"
  shows "pgraph_prim_rewrite_indexed buf (mode\<lparr>last_provoking := lp\<rparr>) idx n =
           pgraph_prim_rewrite_indexed buf mode idx n"
    and "pgraph_prim_rewrite_ranges buf (mode\<lparr>last_provoking := lp\<rparr>) ranges =
           pgraph_prim_rewrite_ranges buf mode ranges"
  using assms
  by (auto simp: pgraph_prim_rewrite_indexed_def pgraph_prim_rewrite_ranges_def needs_rewrite_def
        Let_def rewrite_indices_quads_lp rewrite_ranges_loop_quads_lp total_max_output_loop_lp)

lemma produced_cases:
  fixes n :: "32 word"
  assumes "unat n < 2 ^ 30"
  shows "pmode \<noteq> PRIM_TYPE_POINTS \<Longrightarrow> pmode \<noteq> PRIM_TYPE_LINES \<Longrightarrow> pmode \<noteq> PRIM_TYPE_TRIANGLES \<Longrightarrow>
           produced pmode pgmode (unat n) = unat (max_output_indices pmode pgmode n)"
    and "produced PRIM_TYPE_LINES pgmode (unat n) =
           unat (max_output_indices PRIM_TYPE_LINES pgmode n) - unat n mod 2"
    and "produced PRIM_TYPE_TRIANGLES pgmode (unat n) =
           unat (max_output_indices PRIM_TYPE_TRIANGLES pgmode n) - unat n mod 3"
proof -
  show "pmode \<noteq> PRIM_TYPE_POINTS \<Longrightarrow> pmode \<noteq> PRIM_TYPE_LINES \<Longrightarrow> pmode \<noteq> PRIM_TYPE_TRIANGLES \<Longrightarrow>
           produced pmode pgmode (unat n) = unat (max_output_indices pmode pgmode n)"
    by (cases pmode) (simp_all add: unat_max_output_indices [OF assms])
  show "produced PRIM_TYPE_LINES pgmode (unat n) =
           unat (max_output_indices PRIM_TYPE_LINES pgmode n) - unat n mod 2"
    by (simp add: unat_max_output_indices [OF assms] produced_def minus_mod_eq_mult_div [symmetric])
  show "produced PRIM_TYPE_TRIANGLES pgmode (unat n) =
           unat (max_output_indices PRIM_TYPE_TRIANGLES pgmode n) - unat n mod 3"
    by (simp add: unat_max_output_indices [OF assms] produced_def minus_mod_eq_mult_div [symmetric])
qed

lemma unat_le_total_count: "(start, cnt) \<in> set ranges \<Longrightarrow> unat cnt \<le> total_count ranges"
  by (induction ranges) (auto simp: total_count_def)

lemma concat_ranges_out:
  "concat (map (\<lambda>(start, cnt). if nr then decomposed mode None start (unat cnt) else []) ranges) =
     (if nr then ranges_out mode ranges else [])"
  by (induction ranges) (auto simp: ranges_out_def)

lemma rewrite_indices_count:
  fixes n :: "32 word"
  assumes "unat n < 2 ^ 30"
    and "primitive_mode mode \<noteq> PRIM_TYPE_POINTS"
    and "indices r0 = Some a"
    and "num_indices r0 + unat (max_output_indices (primitive_mode mode) (polygon_mode mode) n)
           \<le> length a"
  shows "\<exists>r. rewrite_indices r0 mode idx base (unat n) = Inr r \<and>
           num_indices r0 \<le> num_indices r \<and>
           num_indices r - num_indices r0
             \<le> unat (max_output_indices (primitive_mode mode) (polygon_mode mode) n) \<and>
           (primitive_mode mode \<noteq> PRIM_TYPE_LINES \<and> primitive_mode mode \<noteq> PRIM_TYPE_TRIANGLES \<longrightarrow>
              num_indices r - num_indices r0
                = unat (max_output_indices (primitive_mode mode) (polygon_mode mode) n)) \<and>
           (primitive_mode mode = PRIM_TYPE_LINES \<longrightarrow>
              num_indices r - num_indices r0
                = unat (max_output_indices (primitive_mode mode) (polygon_mode mode) n)
                    - unat n mod 2) \<and>
           (primitive_mode mode = PRIM_TYPE_TRIANGLES \<longrightarrow>
              num_indices r - num_indices r0
                = unat (max_output_indices (primitive_mode mode) (polygon_mode mode) n)
                    - unat n mod 3)"
proof -
  define out where "out = decomposed mode idx base (unat n)"
  have len: "length out = produced (primitive_mode mode) (polygon_mode mode) (unat n)"
    by (simp add: out_def length_decomposed)
  have le: "length out \<le> unat (max_output_indices (primitive_mode mode) (polygon_mode mode) n)"
    unfolding len by (rule produced_le_max [OF assms(1)])
  with assms(4) have fit: "num_indices r0 + length out \<le> length a" by simp
  then have "num_indices r0 \<le> length a" by simp
  from emits_closed [OF assms(3) this, of out] fit
  have "rewrite_indices r0 mode idx base (unat n) =
          Inr (r0\<lparr>indices := Some (take (num_indices r0) a @ out @ drop (num_indices r0 + length out) a),
                 num_indices := num_indices r0 + length out\<rparr>)"
    by (simp add: rewrite_indices_emits [OF assms(2)] out_def)
  then show ?thesis
    using le assms(2) produced_cases(1) [OF assms(1), of "primitive_mode mode" "polygon_mode mode"]
      produced_cases(2,3) [OF assms(1), of "polygon_mode mode"]
    by (auto simp: len)
qed

lemma ROUND_UP_examples: "ROUND_UP 0 4 = 0" "ROUND_UP 1 4 = 4"
  by (simp_all add: ROUND_UP_def)

lemma replicate_8: "replicate 8 x = [x, x, x, x, x, x, x, x]"
  by (simp add: numeral_eq_Suc)

lemma count_list_remove1:
  "count_list (remove1 h xs) x = (if x = h then count_list xs x - 1 else count_list xs x)"
  by (induction xs) auto

lemma filter_update_length:
  assumes "i < length xs"
  shows "length (filter P (xs[i := y])) + (if P (xs ! i) then 1 else 0) =
         length (filter P xs) + (if P y then 1 else 0)"
proof -
  have "filter P xs = filter P (take i xs @ xs ! i # drop (Suc i) xs)"
    using id_take_nth_drop [OF assms] by simp
  then have "length (filter P xs) =
      length (filter P (take i xs)) + (if P (xs ! i) then 1 else 0) + length (filter P (drop (Suc i) xs))"
    by simp
  moreover have "xs[i := y] = take i xs @ y # drop (Suc i) xs"
    using assms by (simp add: upd_conv_take_nth_drop)
  ultimately show ?thesis by simp
qed

lemma count_list_nil_iff: "(\<forall>h. count_list xs h = 0) \<longleftrightarrow> xs = []"
  by (cases xs) auto

lemma holders_cleared:
  assumes "\<forall>b\<in>set sb. cleared b"
  shows "holders sb h = 0" "mappers sb h = 0"
  using assms by (auto simp: holders_def mappers_def cleared_def filter_empty_conv)

lemma tracked_cleared:
  assumes "tracked w sb" and "\<forall>b\<in>set sb. cleared b"
  shows "vma_buffers w = []" "vma_mappings w = []"
  using assms holders_cleared [OF assms(2)]
  by (simp_all add: tracked_def flip: count_list_nil_iff)

lemma release_buffer_effect:
  assumes "release_buffer w b = (w2, b2)"
  shows "cleared b2"
    and "heap_blocks w2 = heap_blocks w"
    and "count_list (vma_buffers w2) h =
           count_list (vma_buffers w) h - (if buffer b = Some h then 1 else 0)"
    and "count_list (vma_mappings w2) h =
           count_list (vma_mappings w) h
             - (if mapped b \<noteq> None \<and> allocation b = Some h then 1 else 0)"
  using assms
  by (auto simp: release_buffer_def destroy_buffer_def vmaDestroyBuffer_def vmaUnmapMemory_def
        cleared_def count_list_remove1 split: if_splits option.splits)

lemma release_buffer_tracked:
  assumes "release_buffer w (sb ! i) = (w2, b2)" and "i < length sb" and "tracked w sb"
  shows "tracked w2 (sb[i := b2])"
proof -
  note e = release_buffer_effect [OF assms(1)]
  have c: "buffer b2 = None" "mapped b2 = None" using e(1) by (simp_all add: cleared_def)
  have "count_list (vma_buffers w2) h \<le> holders (sb[i := b2]) h" for h
    using filter_update_length [OF assms(2), of "\<lambda>b. buffer b = Some h" b2] assms(3) e(3) [of h] c
    by (auto simp: tracked_def holders_def split: if_splits dest: spec [of _ h])
  moreover have "count_list (vma_mappings w2) h \<le> mappers (sb[i := b2]) h" for h
    using filter_update_length [OF assms(2), of "\<lambda>b. mapped b \<noteq> None \<and> allocation b = Some h" b2]
      assms(3) e(4) [of h] c
    by (auto simp: tracked_def mappers_def split: if_splits dest: spec [of _ h])
  ultimately show ?thesis by (simp add: tracked_def)
qed

lemma release_buffers_loop_step:
  "i < BUFFER_COUNT \<Longrightarrow>
   release_buffers_loop w sb i =
     (case release_buffer w (sb ! i) of
        (w2, b2) \<Rightarrow> release_buffers_loop w2 (sb[i := b2]) (i + 1))"
  by (subst release_buffers_loop.simps) (simp add: release_buffer_def Let_def)

lemma release_buffers_loop_stop:
  "\<not> i < BUFFER_COUNT \<Longrightarrow> release_buffers_loop w sb i = (w, sb)"
  by (subst release_buffers_loop.simps) simp

lemma release_buffers_loop_tracked:
  assumes "tracked w sb" and "length sb = BUFFER_COUNT" and "\<forall>j<i. cleared (sb ! j)"
    and "release_buffers_loop w sb i = (w', sb')"
  shows "tracked w' sb' \<and> length sb' = BUFFER_COUNT \<and> (\<forall>j<BUFFER_COUNT. cleared (sb' ! j)) \<and>
         heap_blocks w' = heap_blocks w"
  using assms
proof (induction w sb i rule: release_buffers_loop.induct)
  case (1 w sb i)
  show ?case
  proof (cases "i < BUFFER_COUNT")
    case True
    obtain w2 b2 where r: "release_buffer w (sb ! i) = (w2, b2)" by (cases "release_buffer w (sb ! i)")
    have il: "i < length sb" using True "1.prems"(2) by simp
    have t2: "tracked w2 (sb[i := b2])"
      by (rule release_buffer_tracked [OF r il "1.prems"(1)])
    have c2: "\<forall>j<i + 1. cleared (sb[i := b2] ! j)"
      using "1.prems"(3) release_buffer_effect(1) [OF r] il
      by (auto simp: nth_list_update less_Suc_eq)
    have l2: "length (sb[i := b2]) = BUFFER_COUNT" using "1.prems"(2) by simp
    have nxt: "release_buffers_loop w2 (sb[i := b2]) (i + 1) = (w', sb')"
      using "1.prems"(4) by (simp add: release_buffers_loop_step [OF True] r)
    have "tracked w' sb' \<and> length sb' = BUFFER_COUNT \<and> (\<forall>j<BUFFER_COUNT. cleared (sb' ! j)) \<and>
         heap_blocks w' = heap_blocks w2"
      by (rule "1.IH" [OF True refl refl refl r [unfolded release_buffer_def, symmetric] t2 l2 c2 nxt])
    then show ?thesis using release_buffer_effect(2) [OF r] by simp
  next
    case False
    then show ?thesis using "1.prems" by (auto simp: release_buffers_loop_stop)
  qed
qed

lemma tracked_all_cleared:
  assumes "tracked w sb" and "\<forall>j<length sb. cleared (sb ! j)"
  shows "vma_buffers w = []" "vma_mappings w = []" "\<forall>b\<in>set sb. cleared b"
proof -
  show c: "\<forall>b\<in>set sb. cleared b" using assms(2) by (auto simp: in_set_conv_nth)
  show "vma_buffers w = []" "vma_mappings w = []"
    by (rule tracked_cleared [OF assms(1) c])+
qed

lemma init_buffers_fail_clean:
  assumes "tracked w (storage_buffers r)" and "length (storage_buffers r) = BUFFER_COUNT"
    and "init_buffers_fail w r = (ok, w', r')"
  shows "\<not> ok" "vma_buffers w' = []" "vma_mappings w' = []" "uploaded_bitmap r' = None"
    "\<forall>b\<in>set (storage_buffers r'). cleared b"
    "heap_blocks w' = heap_blocks w - (if uploaded_bitmap r \<noteq> None then 1 else 0)"
proof -
  obtain w1 sb where l: "release_buffers_loop w (storage_buffers r) 0 = (w1, sb)"
    by (cases "release_buffers_loop w (storage_buffers r) 0")
  from release_buffers_loop_tracked [OF assms(1,2) _ l]
  have t: "tracked w1 sb" and len: "length sb = BUFFER_COUNT"
    and c: "\<forall>j<length sb. cleared (sb ! j)" and h: "heap_blocks w1 = heap_blocks w"
    by simp_all
  note e = tracked_all_cleared [OF t c]
  from assms(3) l have r: "ok = False"
    "w' = (if uploaded_bitmap r \<noteq> None then w1\<lparr>heap_blocks := heap_blocks w1 - 1\<rparr> else w1)"
    "r' = r\<lparr>storage_buffers := sb, uploaded_bitmap := None, bitmap_size := 0\<rparr>"
    by (simp_all add: init_buffers_fail_def)
  show "\<not> ok" "vma_buffers w' = []" "vma_mappings w' = []" "uploaded_bitmap r' = None"
    "\<forall>b\<in>set (storage_buffers r'). cleared b"
    "heap_blocks w' = heap_blocks w - (if uploaded_bitmap r \<noteq> None then 1 else 0)"
    using e h by (simp_all add: r)
qed

lemma create_buffer_tracked:
  assumes "create_buffer env i w (sb ! i) = (ok, w1, b1)" and "i < length sb"
    and "tracked w sb" and "buffer (sb ! i) = None" and "mapped (sb ! i) = None"
  shows "tracked w1 (sb[i := b1])" "mapped b1 = None" "heap_blocks w1 = heap_blocks w"
    "ok = create_ok env i"
proof -
  show m: "mapped b1 = None" and "heap_blocks w1 = heap_blocks w" and "ok = create_ok env i"
    using assms(1,5) by (auto simp: create_buffer_def Let_def split: if_splits)
  have "count_list (vma_buffers w1) h \<le> holders (sb[i := b1]) h" for h
    using filter_update_length [OF assms(2), of "\<lambda>b. buffer b = Some h" b1] assms(1,3,4)
    by (auto simp: tracked_def holders_def create_buffer_def Let_def split: if_splits
          dest: spec [of _ h])
  moreover have "count_list (vma_mappings w1) h \<le> mappers (sb[i := b1]) h" for h
    using filter_update_length [OF assms(2), of "\<lambda>b. mapped b \<noteq> None \<and> allocation b = Some h" b1]
      assms(1,3,5) m
    by (auto simp: tracked_def mappers_def create_buffer_def Let_def split: if_splits
          dest: spec [of _ h])
  ultimately show "tracked w1 (sb[i := b1])" by (simp add: tracked_def)
qed

lemma create_buffers_loop_tracked:
  assumes "tracked w sb" and "length sb = BUFFER_COUNT"
    and "\<forall>j. i \<le> j \<and> j < BUFFER_COUNT \<longrightarrow> buffer (sb ! j) = None"
    and "\<forall>j<BUFFER_COUNT. mapped (sb ! j) = None"
    and "create_buffers_loop env w sb i = (ok, w', sb')"
  shows "tracked w' sb' \<and> length sb' = BUFFER_COUNT \<and> (\<forall>j<BUFFER_COUNT. mapped (sb' ! j) = None) \<and>
         heap_blocks w' = heap_blocks w \<and>
         (ok \<longleftrightarrow> (\<forall>j. i \<le> j \<and> j < BUFFER_COUNT \<longrightarrow> create_ok env j))"
  using assms
proof (induction env w sb i rule: create_buffers_loop.induct)
  case (1 env w sb i)
  show ?case
  proof (cases "i < BUFFER_COUNT")
    case True
    obtain ok1 w1 b1 where c: "create_buffer env i w (sb ! i) = (ok1, w1, b1)"
      by (cases "create_buffer env i w (sb ! i)")
    have il: "i < length sb" using True "1.prems"(2) by simp
    note e = create_buffer_tracked [OF c il "1.prems"(1)]
    have bn: "buffer (sb ! i) = None" and mn: "mapped (sb ! i) = None"
      using "1.prems"(3,4) True by auto
    note e = create_buffer_tracked [OF c il "1.prems"(1) bn mn]
    have l1: "length (sb[i := b1]) = BUFFER_COUNT" using "1.prems"(2) by simp
    have m1: "\<forall>j<BUFFER_COUNT. mapped (sb[i := b1] ! j) = None"
      using "1.prems"(4) e(2) il by (auto simp: nth_list_update)
    show ?thesis
    proof (cases ok1)
      case False
      then have "ok = False" "w' = w1" "sb' = sb[i := b1]"
        using "1.prems"(5) c True by (subst (asm) create_buffers_loop.simps; simp)+
      moreover have "\<not> create_ok env i" using False e(4) by simp
      ultimately show ?thesis using e l1 m1 True by auto
    next
      case ok: True
      then have nxt: "create_buffers_loop env w1 (sb[i := b1]) (i + 1) = (ok, w', sb')"
        using "1.prems"(5) c True by (subst (asm) create_buffers_loop.simps) simp
      have b1': "\<forall>j. i + 1 \<le> j \<and> j < BUFFER_COUNT \<longrightarrow> buffer (sb[i := b1] ! j) = None"
        using "1.prems"(3) by (auto simp: nth_list_update)
      have "tracked w' sb' \<and> length sb' = BUFFER_COUNT \<and> (\<forall>j<BUFFER_COUNT. mapped (sb' ! j) = None) \<and>
         heap_blocks w' = heap_blocks w1 \<and>
         (ok \<longleftrightarrow> (\<forall>j. i + 1 \<le> j \<and> j < BUFFER_COUNT \<longrightarrow> create_ok env j))"
        using "1.IH" [OF True c [symmetric] refl _ e(1) l1 b1' m1 nxt] ok by simp
      moreover have "(\<forall>j. i \<le> j \<and> j < BUFFER_COUNT \<longrightarrow> create_ok env j) \<longleftrightarrow>
          (\<forall>j. i + 1 \<le> j \<and> j < BUFFER_COUNT \<longrightarrow> create_ok env j)"
      proof
        assume "\<forall>j. i \<le> j \<and> j < BUFFER_COUNT \<longrightarrow> create_ok env j"
        then show "\<forall>j. i + 1 \<le> j \<and> j < BUFFER_COUNT \<longrightarrow> create_ok env j" by simp
      next
        assume r: "\<forall>j. i + 1 \<le> j \<and> j < BUFFER_COUNT \<longrightarrow> create_ok env j"
        show "\<forall>j. i \<le> j \<and> j < BUFFER_COUNT \<longrightarrow> create_ok env j"
        proof (intro allI impI)
          fix j
          assume j: "i \<le> j \<and> j < BUFFER_COUNT"
          show "create_ok env j"
          proof (cases "j = i")
            case True
            then show ?thesis using ok e(4) by simp
          next
            case False
            with j have "i + 1 \<le> j \<and> j < BUFFER_COUNT" by simp
            with r show ?thesis by blast
          qed
        qed
      qed
      ultimately show ?thesis using e(3) by simp
    qed
  next
    case False
    then show ?thesis using "1.prems"
      by (subst (asm) create_buffers_loop.simps) auto
  qed
qed

lemma vmaMapMemory_tracked:
  assumes "vmaMapMemory env i w (sb ! i) = (ok, w1, b1)" and "i < length sb"
    and "tracked w sb" and "mapped (sb ! i) = None"
  shows "tracked w1 (sb[i := b1])" "heap_blocks w1 = heap_blocks w" "ok = map_ok env i"
proof -
  show "heap_blocks w1 = heap_blocks w" and "ok = map_ok env i"
    using assms(1) by (auto simp: vmaMapMemory_def split: if_splits option.splits)
  have "count_list (vma_buffers w1) h \<le> holders (sb[i := b1]) h" for h
    using filter_update_length [OF assms(2), of "\<lambda>b. buffer b = Some h" b1] assms(1,3)
    by (auto simp: tracked_def holders_def vmaMapMemory_def split: if_splits option.splits
          dest: spec [of _ h])
  moreover have "count_list (vma_mappings w1) h \<le> mappers (sb[i := b1]) h" for h
    using filter_update_length [OF assms(2), of "\<lambda>b. mapped b \<noteq> None \<and> allocation b = Some h" b1]
      assms(1,3,4)
    by (auto simp: tracked_def mappers_def vmaMapMemory_def split: if_splits option.splits
          dest: spec [of _ h])
  ultimately show "tracked w1 (sb[i := b1])" by (simp add: tracked_def)
qed

lemma map_buffers_loop_tracked:
  assumes "tracked w sb" and "length sb = BUFFER_COUNT" and "distinct idxs"
    and "\<forall>i\<in>set idxs. i < BUFFER_COUNT \<and> mapped (sb ! i) = None"
    and "map_buffers_loop env w sb idxs = (ok, w', sb')"
  shows "tracked w' sb' \<and> length sb' = BUFFER_COUNT \<and> heap_blocks w' = heap_blocks w \<and>
         (ok \<longleftrightarrow> (\<forall>i\<in>set idxs. map_ok env i))"
  using assms
proof (induction idxs arbitrary: w sb)
  case Nil
  then show ?case by simp
next
  case (Cons i idxs)
  obtain ok1 w1 b1 where m: "vmaMapMemory env i w (sb ! i) = (ok1, w1, b1)"
    by (cases "vmaMapMemory env i w (sb ! i)")
  have il: "i < length sb" and mn: "mapped (sb ! i) = None"
    using Cons.prems(2,4) by simp_all
  note e = vmaMapMemory_tracked [OF m il Cons.prems(1) mn]
  have l1: "length (sb[i := b1]) = BUFFER_COUNT" using Cons.prems(2) by simp
  show ?case
  proof (cases ok1)
    case False
    then have "ok = False" "w' = w1" "sb' = sb[i := b1]"
      using Cons.prems(5) m by simp_all
    then show ?thesis using e l1 False by simp
  next
    case True
    then have nxt: "map_buffers_loop env w1 (sb[i := b1]) idxs = (ok, w', sb')"
      using Cons.prems(5) m by simp
    have d: "distinct idxs" and ni: "i \<notin> set idxs" using Cons.prems(3) by simp_all
    have "sb[i := b1] ! j = sb ! j" if "j \<in> set idxs" for j
      using that ni by (intro nth_list_update_neq) auto
    then have r: "\<forall>j\<in>set idxs. j < BUFFER_COUNT \<and> mapped (sb[i := b1] ! j) = None"
      using Cons.prems(4) by simp
    from Cons.IH [OF e(1) l1 d r nxt] e(2,3) True show ?thesis by simp
  qed
qed

lemma cleared_update:
  "\<forall>b\<in>set xs. cleared b \<Longrightarrow> cleared y \<Longrightarrow> \<forall>b\<in>set (xs[i := y]). cleared b"
  using set_update_subset_insert [of xs i y] by auto

lemma cleared_new_storage_buffer: "cleared (new_storage_buffer cls use sz)"
  by (simp add: cleared_def new_storage_buffer_def)

lemma tracked_empty: "vma_buffers w = [] \<Longrightarrow> vma_mappings w = [] \<Longrightarrow> tracked w sb"
  by (simp add: tracked_def)

lemma buffers_to_map_ok: "distinct buffers_to_map" "\<forall>i\<in>set buffers_to_map. i < BUFFER_COUNT"
  by (simp_all add: buffers_to_map_def BUFFER_COUNT_def BUFFER_VERTEX_RAM_def
        BUFFER_INDEX_STAGING_def BUFFER_VERTEX_INLINE_STAGING_def BUFFER_UNIFORM_STAGING_def)

lemma assign_buffers_cleared:
  assumes "\<forall>b\<in>set sb. cleared b"
  shows "\<forall>b\<in>set (assign_buffers_before_bitmap p sb). cleared b"
    and "\<forall>b\<in>set (assign_buffers_after_bitmap p sb). cleared b"
  unfolding assign_buffers_before_bitmap_def assign_buffers_after_bitmap_def Let_def
  by (intro cleared_update cleared_new_storage_buffer assms)+

lemma assign_buffers_length:
  "length (assign_buffers_before_bitmap p sb) = length sb"
  "length (assign_buffers_after_bitmap p sb) = length sb"
  by (simp_all add: assign_buffers_before_bitmap_def assign_buffers_after_bitmap_def Let_def)


section \<open>Claims\<close>

text \<open>
  C4: \<open>needs_rewrite\<close> is false for points, is \<open>last_provoking \<and> flat_shading\<close> for
  lines and triangles, and is true for every other topology, whatever the polygon mode
  and the two flags are.
\<close>

theorem needs_rewrite_matrix:
  "needs_rewrite \<lparr>primitive_mode = PRIM_TYPE_POINTS, polygon_mode = pg,
      last_provoking = lp, flat_shading = fs\<rparr> = False \<and>
   needs_rewrite \<lparr>primitive_mode = PRIM_TYPE_LINES, polygon_mode = pg,
      last_provoking = lp, flat_shading = fs\<rparr> = (lp \<and> fs) \<and>
   needs_rewrite \<lparr>primitive_mode = PRIM_TYPE_TRIANGLES, polygon_mode = pg,
      last_provoking = lp, flat_shading = fs\<rparr> = (lp \<and> fs) \<and>
   needs_rewrite \<lparr>primitive_mode = PRIM_TYPE_LINE_STRIP, polygon_mode = pg,
      last_provoking = lp, flat_shading = fs\<rparr> = True \<and>
   needs_rewrite \<lparr>primitive_mode = PRIM_TYPE_LINE_LOOP, polygon_mode = pg,
      last_provoking = lp, flat_shading = fs\<rparr> = True \<and>
   needs_rewrite \<lparr>primitive_mode = PRIM_TYPE_TRIANGLE_STRIP, polygon_mode = pg,
      last_provoking = lp, flat_shading = fs\<rparr> = True \<and>
   needs_rewrite \<lparr>primitive_mode = PRIM_TYPE_TRIANGLE_FAN, polygon_mode = pg,
      last_provoking = lp, flat_shading = fs\<rparr> = True \<and>
   needs_rewrite \<lparr>primitive_mode = PRIM_TYPE_QUADS, polygon_mode = pg,
      last_provoking = lp, flat_shading = fs\<rparr> = True \<and>
   needs_rewrite \<lparr>primitive_mode = PRIM_TYPE_QUAD_STRIP, polygon_mode = pg,
      last_provoking = lp, flat_shading = fs\<rparr> = True \<and>
   needs_rewrite \<lparr>primitive_mode = PRIM_TYPE_POLYGON, polygon_mode = pg,
      last_provoking = lp, flat_shading = fs\<rparr> = True"
  by (simp add: needs_rewrite_def)

text \<open>
  C6: on the input indices \<open>(0,1,2,3)\<close>, quads in fill mode are rewritten to
  \<open>(0,1,2),(0,2,3)\<close> without flat shading and to \<open>(3,0,1),(3,1,2)\<close> with flat shading
  (the quad's last vertex first in both triangles), whatever \<open>last_provoking\<close> is and
  whatever the scratch buffer held before.
\<close>

theorem quads_example:
  assumes "buf_ok buf"
  shows "rewritten (pgraph_prim_rewrite_indexed buf
            \<lparr>primitive_mode = PRIM_TYPE_QUADS, polygon_mode = POLY_MODE_FILL,
             last_provoking = lp, flat_shading = False\<rparr> (Some [0, 1, 2, 3]) 4)
           = Inr [0, 1, 2, 0, 2, 3] \<and>
         rewritten (pgraph_prim_rewrite_indexed buf
            \<lparr>primitive_mode = PRIM_TYPE_QUADS, polygon_mode = POLY_MODE_FILL,
             last_provoking = lp, flat_shading = True\<rparr> (Some [0, 1, 2, 3]) 4)
           = Inr [3, 0, 1, 3, 1, 2]"
  by (simp add: rewritten_indexed [OF assms] eval_decomposed)

theorem quads_example_witness:
  "buf_ok \<lparr>data = None, capacity = 0\<rparr> \<and>
   rewritten (pgraph_prim_rewrite_indexed \<lparr>data = None, capacity = 0\<rparr>
            \<lparr>primitive_mode = PRIM_TYPE_QUADS, polygon_mode = POLY_MODE_FILL,
             last_provoking = False, flat_shading = False\<rparr> (Some [0, 1, 2, 3]) 4)
           = Inr [0, 1, 2, 0, 2, 3] \<and>
   rewritten (pgraph_prim_rewrite_indexed \<lparr>data = None, capacity = 0\<rparr>
            \<lparr>primitive_mode = PRIM_TYPE_QUADS, polygon_mode = POLY_MODE_FILL,
             last_provoking = False, flat_shading = True\<rparr> (Some [0, 1, 2, 3]) 4)
           = Inr [3, 0, 1, 3, 1, 2]"
  using quads_example [OF buf_ok_init, of False] buf_ok_init by simp

text \<open>
  C7, as amended: on the input indices \<open>(10,20,30,40)\<close> with \<open>last_provoking = False\<close>, a
  triangle fan is rewritten to the index sequence \<open>20,30,10,30,40,10\<close>: the triangles
  \<open>(10,20,30)\<close> and \<open>(10,30,40)\<close>, each rotated (winding kept) so that its provoking
  vertex, the first vertex after the hub, comes first. This holds for either value of
  \<open>flat_shading\<close> and every polygon mode.
\<close>

theorem triangle_fan_example:
  assumes "buf_ok buf"
  shows "rewritten (pgraph_prim_rewrite_indexed buf
            \<lparr>primitive_mode = PRIM_TYPE_TRIANGLE_FAN, polygon_mode = pg,
             last_provoking = False, flat_shading = fs\<rparr> (Some [10, 20, 30, 40]) 4)
           = Inr [20, 30, 10, 30, 40, 10]"
  by (simp add: rewritten_indexed [OF assms] eval_decomposed)

theorem triangle_fan_example_witness:
  "buf_ok \<lparr>data = None, capacity = 0\<rparr> \<and>
   rewritten (pgraph_prim_rewrite_indexed \<lparr>data = None, capacity = 0\<rparr>
            \<lparr>primitive_mode = PRIM_TYPE_TRIANGLE_FAN, polygon_mode = POLY_MODE_FILL,
             last_provoking = False, flat_shading = True\<rparr> (Some [10, 20, 30, 40]) 4)
           = Inr (rotate 1 [10, 20, 30] @ rotate 1 [10, 30, 40])"
  using triangle_fan_example [OF buf_ok_init, of POLY_MODE_FILL True] buf_ok_init by simp

text \<open>
  C7 as stated fails: the emitted sequence is not \<open>10,20,30,10,30,40\<close>.
\<close>

theorem triangle_fan_counterexample:
  "rewritten (pgraph_prim_rewrite_indexed \<lparr>data = None, capacity = 0\<rparr>
            \<lparr>primitive_mode = PRIM_TYPE_TRIANGLE_FAN, polygon_mode = POLY_MODE_FILL,
             last_provoking = False, flat_shading = False\<rparr> (Some [10, 20, 30, 40]) 4)
           \<noteq> Inr [10, 20, 30, 10, 30, 40]"
  by (simp add: rewritten_indexed [OF buf_ok_init] eval_decomposed)

text \<open>
  C10: for quads and quad strips on the flat-shaded fill path, both entry points return
  the same result for \<open>last_provoking = True\<close> and \<open>last_provoking = False\<close>, on every
  input. On one quad \<open>(a,b,c,d)\<close> the output is \<open>(d,a,b),(d,b,c)\<close> for quads and
  \<open>(d,c,a),(d,a,b)\<close> for a quad strip: the last vertex of the window comes first in both
  triangles, whatever \<open>last_provoking\<close> is.
\<close>

theorem quads_ignore_last_provoking:
  "pgraph_prim_rewrite_indexed buf
      \<lparr>primitive_mode = PRIM_TYPE_QUADS, polygon_mode = POLY_MODE_FILL,
       last_provoking = True, flat_shading = True\<rparr> idx n =
   pgraph_prim_rewrite_indexed buf
      \<lparr>primitive_mode = PRIM_TYPE_QUADS, polygon_mode = POLY_MODE_FILL,
       last_provoking = False, flat_shading = True\<rparr> idx n \<and>
   pgraph_prim_rewrite_indexed buf
      \<lparr>primitive_mode = PRIM_TYPE_QUAD_STRIP, polygon_mode = POLY_MODE_FILL,
       last_provoking = True, flat_shading = True\<rparr> idx n =
   pgraph_prim_rewrite_indexed buf
      \<lparr>primitive_mode = PRIM_TYPE_QUAD_STRIP, polygon_mode = POLY_MODE_FILL,
       last_provoking = False, flat_shading = True\<rparr> idx n \<and>
   pgraph_prim_rewrite_ranges buf
      \<lparr>primitive_mode = PRIM_TYPE_QUADS, polygon_mode = POLY_MODE_FILL,
       last_provoking = True, flat_shading = True\<rparr> ranges =
   pgraph_prim_rewrite_ranges buf
      \<lparr>primitive_mode = PRIM_TYPE_QUADS, polygon_mode = POLY_MODE_FILL,
       last_provoking = False, flat_shading = True\<rparr> ranges \<and>
   pgraph_prim_rewrite_ranges buf
      \<lparr>primitive_mode = PRIM_TYPE_QUAD_STRIP, polygon_mode = POLY_MODE_FILL,
       last_provoking = True, flat_shading = True\<rparr> ranges =
   pgraph_prim_rewrite_ranges buf
      \<lparr>primitive_mode = PRIM_TYPE_QUAD_STRIP, polygon_mode = POLY_MODE_FILL,
       last_provoking = False, flat_shading = True\<rparr> ranges \<and>
   (buf_ok buf \<longrightarrow>
      rewritten (pgraph_prim_rewrite_indexed buf
        \<lparr>primitive_mode = PRIM_TYPE_QUADS, polygon_mode = POLY_MODE_FILL,
         last_provoking = lp, flat_shading = True\<rparr> (Some [a, b, c, d]) 4)
        = Inr [d, a, b, d, b, c] \<and>
      rewritten (pgraph_prim_rewrite_indexed buf
        \<lparr>primitive_mode = PRIM_TYPE_QUAD_STRIP, polygon_mode = POLY_MODE_FILL,
         last_provoking = lp, flat_shading = True\<rparr> (Some [a, b, c, d]) 4)
        = Inr [d, c, a, d, a, b])"
proof -
  let ?q = "\<lparr>primitive_mode = PRIM_TYPE_QUADS, polygon_mode = POLY_MODE_FILL,
       last_provoking = False, flat_shading = True\<rparr>"
  let ?s = "\<lparr>primitive_mode = PRIM_TYPE_QUAD_STRIP, polygon_mode = POLY_MODE_FILL,
       last_provoking = False, flat_shading = True\<rparr>"
  have "pgraph_prim_rewrite_indexed buf (?q\<lparr>last_provoking := True\<rparr>) idx n =
          pgraph_prim_rewrite_indexed buf ?q idx n"
       "pgraph_prim_rewrite_indexed buf (?s\<lparr>last_provoking := True\<rparr>) idx n =
          pgraph_prim_rewrite_indexed buf ?s idx n"
       "pgraph_prim_rewrite_ranges buf (?q\<lparr>last_provoking := True\<rparr>) ranges =
          pgraph_prim_rewrite_ranges buf ?q ranges"
       "pgraph_prim_rewrite_ranges buf (?s\<lparr>last_provoking := True\<rparr>) ranges =
          pgraph_prim_rewrite_ranges buf ?s ranges"
    using entry_points_quads_lp [where mode = ?q and lp = True]
      entry_points_quads_lp [where mode = ?s and lp = True]
    by simp_all
  moreover have "rewritten (pgraph_prim_rewrite_indexed buf
        \<lparr>primitive_mode = PRIM_TYPE_QUADS, polygon_mode = POLY_MODE_FILL,
         last_provoking = lp, flat_shading = True\<rparr> (Some [a, b, c, d]) 4)
        = Inr [d, a, b, d, b, c]"
     and "rewritten (pgraph_prim_rewrite_indexed buf
        \<lparr>primitive_mode = PRIM_TYPE_QUAD_STRIP, polygon_mode = POLY_MODE_FILL,
         last_provoking = lp, flat_shading = True\<rparr> (Some [a, b, c, d]) 4)
        = Inr [d, c, a, d, a, b]" if "buf_ok buf"
    by (simp_all add: rewritten_indexed [OF that] eval_decomposed)
  ultimately show ?thesis by simp
qed

theorem quads_ignore_last_provoking_witness:
  "pgraph_prim_rewrite_indexed \<lparr>data = None, capacity = 0\<rparr>
      \<lparr>primitive_mode = PRIM_TYPE_QUADS, polygon_mode = POLY_MODE_FILL,
       last_provoking = True, flat_shading = True\<rparr> (Some [4, 5, 6, 7, 8, 9, 10, 11]) 8 =
   pgraph_prim_rewrite_indexed \<lparr>data = None, capacity = 0\<rparr>
      \<lparr>primitive_mode = PRIM_TYPE_QUADS, polygon_mode = POLY_MODE_FILL,
       last_provoking = False, flat_shading = True\<rparr> (Some [4, 5, 6, 7, 8, 9, 10, 11]) 8 \<and>
   buf_ok \<lparr>data = None, capacity = 0\<rparr> \<and>
   rewritten (pgraph_prim_rewrite_indexed \<lparr>data = None, capacity = 0\<rparr>
        \<lparr>primitive_mode = PRIM_TYPE_QUADS, polygon_mode = POLY_MODE_FILL,
         last_provoking = True, flat_shading = True\<rparr> (Some [4, 5, 6, 7]) 4)
        = Inr [7, 4, 5, 7, 5, 6] \<and>
   rewritten (pgraph_prim_rewrite_indexed \<lparr>data = None, capacity = 0\<rparr>
        \<lparr>primitive_mode = PRIM_TYPE_QUAD_STRIP, polygon_mode = POLY_MODE_FILL,
         last_provoking = True, flat_shading = True\<rparr> (Some [4, 5, 6, 7]) 4)
        = Inr [7, 6, 4, 7, 4, 5]"
  using quads_ignore_last_provoking
    [of "\<lparr>data = None, capacity = 0\<rparr>" "Some [4, 5, 6, 7, 8, 9, 10, 11]" 8 "[]" True 4 5 6 7]
    buf_ok_init
  by simp

text \<open>
  C5, as amended: for every mode that passes the assertion of the entry points, points
  included, the view \<open>pgraph_prim_rewrite_indexed\<close> returns holds at most
  \<open>max_output_indices\<close> indices. With room for that bound in the scratch array,
  \<open>rewrite_indices\<close> (defined for every topology but points) succeeds and appends
  exactly the bound for every topology other than lines and triangles (quads, quad
  strips, and also line strips, line loops, triangle strips, triangle fans and polygons,
  whose bound and output are both zero below the minimum count). For lines and triangles
  it appends the bound minus \<open>count mod 2\<close>, respectively \<open>count mod 3\<close>: the vertices of
  an incomplete last group are dropped, while the bound is the input count itself.
\<close>

theorem output_count_bound:
  fixes n :: "32 word"
  assumes "unat n < 2 ^ 30"
  shows
    "(buf_ok buf \<and> assert_ok mode \<longrightarrow>
       (\<exists>buf' r. pgraph_prim_rewrite_indexed buf mode idx n = Inr (buf', r) \<and>
          num_indices r \<le> unat (max_output_indices (primitive_mode mode) (polygon_mode mode) n))) \<and>
     (primitive_mode mode \<noteq> PRIM_TYPE_POINTS \<and> indices r0 = Some a \<and>
      num_indices r0 + unat (max_output_indices (primitive_mode mode) (polygon_mode mode) n)
        \<le> length a \<longrightarrow>
       (\<exists>r. rewrite_indices r0 mode idx base (unat n) = Inr r \<and>
           num_indices r0 \<le> num_indices r \<and>
           num_indices r - num_indices r0
             \<le> unat (max_output_indices (primitive_mode mode) (polygon_mode mode) n) \<and>
           (primitive_mode mode \<noteq> PRIM_TYPE_LINES \<and> primitive_mode mode \<noteq> PRIM_TYPE_TRIANGLES \<longrightarrow>
              num_indices r - num_indices r0
                = unat (max_output_indices (primitive_mode mode) (polygon_mode mode) n)) \<and>
           (primitive_mode mode = PRIM_TYPE_LINES \<longrightarrow>
              num_indices r - num_indices r0
                = unat (max_output_indices (primitive_mode mode) (polygon_mode mode) n)
                    - unat n mod 2) \<and>
           (primitive_mode mode = PRIM_TYPE_TRIANGLES \<longrightarrow>
              num_indices r - num_indices r0
                = unat (max_output_indices (primitive_mode mode) (polygon_mode mode) n)
                    - unat n mod 3)))"
proof (intro conjI impI)
  assume h: "buf_ok buf \<and> assert_ok mode"
  then have ok: "buf_ok buf" and a: "assert_ok mode" by simp_all
  have "length (decomposed mode idx 0 (unat n))
          \<le> unat (max_output_indices (primitive_mode mode) (polygon_mode mode) n)"
    unfolding length_decomposed by (rule produced_le_max [OF assms])
  then show "\<exists>buf' r. pgraph_prim_rewrite_indexed buf mode idx n = Inr (buf', r) \<and>
          num_indices r \<le> unat (max_output_indices (primitive_mode mode) (polygon_mode mode) n)"
    by (simp add: indexed_char [OF ok assms a] Let_def)
next
  assume "primitive_mode mode \<noteq> PRIM_TYPE_POINTS \<and> indices r0 = Some a \<and>
      num_indices r0 + unat (max_output_indices (primitive_mode mode) (polygon_mode mode) n)
        \<le> length a"
  then show "\<exists>r. rewrite_indices r0 mode idx base (unat n) = Inr r \<and>
           num_indices r0 \<le> num_indices r \<and>
           num_indices r - num_indices r0
             \<le> unat (max_output_indices (primitive_mode mode) (polygon_mode mode) n) \<and>
           (primitive_mode mode \<noteq> PRIM_TYPE_LINES \<and> primitive_mode mode \<noteq> PRIM_TYPE_TRIANGLES \<longrightarrow>
              num_indices r - num_indices r0
                = unat (max_output_indices (primitive_mode mode) (polygon_mode mode) n)) \<and>
           (primitive_mode mode = PRIM_TYPE_LINES \<longrightarrow>
              num_indices r - num_indices r0
                = unat (max_output_indices (primitive_mode mode) (polygon_mode mode) n)
                    - unat n mod 2) \<and>
           (primitive_mode mode = PRIM_TYPE_TRIANGLES \<longrightarrow>
              num_indices r - num_indices r0
                = unat (max_output_indices (primitive_mode mode) (polygon_mode mode) n)
                    - unat n mod 3)"
    using rewrite_indices_count [OF assms, of mode r0 a idx base] by blast
qed

theorem output_count_bound_witness:
  "(\<exists>buf' r. pgraph_prim_rewrite_indexed \<lparr>data = None, capacity = 0\<rparr>
          \<lparr>primitive_mode = PRIM_TYPE_POINTS, polygon_mode = POLY_MODE_FILL,
           last_provoking = True, flat_shading = True\<rparr> (Some [7, 8, 9]) 3 = Inr (buf', r) \<and>
        num_indices r = 0) \<and>
   (\<exists>r. rewrite_indices \<lparr>indices = Some [0, 0, 0], num_indices = 0\<rparr>
          \<lparr>primitive_mode = PRIM_TYPE_LINES, polygon_mode = POLY_MODE_FILL,
           last_provoking = True, flat_shading = True\<rparr> (Some [7, 8, 9]) 0 (unat (3 :: 32 word)) = Inr r \<and>
        num_indices r = 2 \<and>
        unat (max_output_indices PRIM_TYPE_LINES POLY_MODE_FILL 3) = 3)"
  using output_count_bound [where n = 3 and buf = "\<lparr>data = None, capacity = 0\<rparr>"
           and mode = "\<lparr>primitive_mode = PRIM_TYPE_POINTS, polygon_mode = POLY_MODE_FILL,
             last_provoking = True, flat_shading = True\<rparr>" and idx = "Some [7, 8, 9]"]
        output_count_bound [where n = 3
           and mode = "\<lparr>primitive_mode = PRIM_TYPE_LINES, polygon_mode = POLY_MODE_FILL,
             last_provoking = True, flat_shading = True\<rparr>"
           and ?r0.0 = "\<lparr>indices = Some [0, 0, 0], num_indices = 0\<rparr>"
           and a = "[0, 0, 0]" and idx = "Some [7, 8, 9]" and base = 0]
        buf_ok_init
  by (auto simp: max_output_indices_def assert_ok_def)

text \<open>
  C5 as stated fails for lines: three input indices give the bound 3 and two output
  indices.
\<close>

theorem lines_count_counterexample:
  "max_output_indices PRIM_TYPE_LINES POLY_MODE_FILL 3 = 3 \<and>
   pgraph_prim_rewrite_indexed \<lparr>data = None, capacity = 0\<rparr>
      \<lparr>primitive_mode = PRIM_TYPE_LINES, polygon_mode = POLY_MODE_FILL,
       last_provoking = True, flat_shading = True\<rparr> (Some [7, 8, 9]) 3 =
     Inr (\<lparr>data = Some [8, 7, 0], capacity = 3\<rparr>,
          \<lparr>indices = Some [8, 7, 0], num_indices = 2\<rparr>)"
  by (simp add: indexed_char [OF buf_ok_init] eval_decomposed max_output_indices_def
        ensure_capacity_def g_realloc_def)




text \<open>
  C1, as amended: for every mode, scratch buffer and single range \<open>(start, cnt)\<close> the
  ranges-based entry point returns exactly what the explicit-index entry point returns on
  the expanded sequence \<open>start, \<dots>, start + cnt - 1\<close> (so the range \<open>(0, N)\<close> and the
  indices \<open>0..N-1\<close> give identical results). For a list of ranges whose counts sum to
  fewer than \<open>2^30\<close>, a well-formed scratch buffer and a mode that passes the assertion of
  the entry points, its output is the concatenation, in range order, of the outputs of
  the explicit-index entry point on the expanded sequence of each range on its own: no
  primitive joins vertices of two ranges.
\<close>

theorem ranges_rewrite_per_range:
  "pgraph_prim_rewrite_ranges buf mode [(start, cnt)] =
     pgraph_prim_rewrite_indexed buf mode (Some (sequential_indices start cnt)) cnt \<and>
   (buf_ok buf \<and> total_count ranges < 2 ^ 30 \<and> assert_ok mode \<longrightarrow>
      (\<exists>outs.
         list_all2
           (\<lambda>(s, c) out.
              rewritten (pgraph_prim_rewrite_indexed buf mode (Some (sequential_indices s c)) c)
                = Inr out)
           ranges outs \<and>
         rewritten (pgraph_prim_rewrite_ranges buf mode ranges) = Inr (concat outs)))"
proof (intro conjI impI)
  show "pgraph_prim_rewrite_ranges buf mode [(start, cnt)] =
     pgraph_prim_rewrite_indexed buf mode (Some (sequential_indices start cnt)) cnt"
    by (rule single_range_eq)
next
  assume h: "buf_ok buf \<and> total_count ranges < 2 ^ 30 \<and> assert_ok mode"
  then have ok: "buf_ok buf" and tc: "total_count ranges < 2 ^ 30" and a: "assert_ok mode"
    by simp_all
  let ?f = "\<lambda>(s, c). if needs_rewrite mode then decomposed mode None s (unat c) else []"
  have "rewritten (pgraph_prim_rewrite_indexed buf mode (Some (sequential_indices s c)) c)
          = Inr (?f (s, c))" if "(s, c) \<in> set ranges" for s c
  proof -
    have "unat c < 2 ^ 30" using unat_le_total_count [OF that] tc by simp
    then show ?thesis
      by (simp add: rewritten_indexed [OF ok _ a] decomposed_sequential)
  qed
  then have "list_all2
              (\<lambda>(s, c) out.
                 rewritten (pgraph_prim_rewrite_indexed buf mode (Some (sequential_indices s c)) c)
                   = Inr out)
              ranges (map ?f ranges)"
    by (auto simp: list_all2_map2 intro!: list_all2_same [THEN iffD2])
  moreover have "rewritten (pgraph_prim_rewrite_ranges buf mode ranges) = Inr (concat (map ?f ranges))"
    by (simp add: rewritten_ranges [OF ok tc a] concat_ranges_out)
  ultimately show "\<exists>outs.
         list_all2
           (\<lambda>(s, c) out.
              rewritten (pgraph_prim_rewrite_indexed buf mode (Some (sequential_indices s c)) c)
                = Inr out)
           ranges outs \<and>
         rewritten (pgraph_prim_rewrite_ranges buf mode ranges) = Inr (concat outs)"
    by blast
qed

theorem ranges_rewrite_per_range_witness:
  "rewritten (pgraph_prim_rewrite_ranges \<lparr>data = None, capacity = 0\<rparr>
      \<lparr>primitive_mode = PRIM_TYPE_LINE_STRIP, polygon_mode = POLY_MODE_FILL,
       last_provoking = False, flat_shading = False\<rparr> [(0, 3), (7, 2)])
     = Inr ([0, 1, 1, 2] @ [7, 8])"
proof -
  let ?b = "\<lparr>data = None, capacity = 0\<rparr>"
  let ?m = "\<lparr>primitive_mode = PRIM_TYPE_LINE_STRIP, polygon_mode = POLY_MODE_FILL,
       last_provoking = False, flat_shading = False\<rparr>"
  have tc: "total_count [(0, 3), (7, 2)] < 2 ^ 30" by (simp add: total_count_def)
  have a: "assert_ok ?m" by (simp add: assert_ok_def)
  have s: "sequential_indices 0 3 = [0, 1, 2]" "sequential_indices 7 2 = [7, 8]"
    by (simp_all add: sequential_indices_def upt_rec)
  have 1: "rewritten (pgraph_prim_rewrite_indexed ?b ?m (Some [0, 1, 2]) 3) = Inr [0, 1, 1, 2]"
   and 2: "rewritten (pgraph_prim_rewrite_indexed ?b ?m (Some [7, 8]) 2) = Inr [7, 8]"
    by (simp_all add: rewritten_indexed [OF buf_ok_init _ a] eval_decomposed)
  from ranges_rewrite_per_range [where buf = ?b and mode = ?m and ranges = "[(0, 3), (7, 2)]"]
    buf_ok_init tc a
  obtain outs where o: "list_all2
              (\<lambda>(s, c) out.
                 rewritten (pgraph_prim_rewrite_indexed ?b ?m (Some (sequential_indices s c)) c)
                   = Inr out)
              [(0, 3), (7, 2)] outs"
      "rewritten (pgraph_prim_rewrite_ranges ?b ?m [(0, 3), (7, 2)]) = Inr (concat outs)"
    by blast
  from o(1) have "outs = [[0, 1, 1, 2], [7, 8]]"
    by (auto simp: list_all2_Cons1 s 1 2)
  with o(2) show ?thesis by simp
qed

text \<open>
  C1 as stated fails: a line strip over the ranges \<open>(0,2)\<close> and \<open>(5,2)\<close> is not the line
  strip over the concatenated indices \<open>0,1,5,6\<close>, which has the extra line \<open>(1,5)\<close>.
\<close>

theorem ranges_concatenation_counterexample:
  "rewritten (pgraph_prim_rewrite_ranges \<lparr>data = None, capacity = 0\<rparr>
      \<lparr>primitive_mode = PRIM_TYPE_LINE_STRIP, polygon_mode = POLY_MODE_FILL,
       last_provoking = False, flat_shading = False\<rparr> [(0, 2), (5, 2)])
     = Inr [0, 1, 5, 6] \<and>
   sequential_indices 0 2 @ sequential_indices 5 2 = [0, 1, 5, 6] \<and>
   rewritten (pgraph_prim_rewrite_indexed \<lparr>data = None, capacity = 0\<rparr>
      \<lparr>primitive_mode = PRIM_TYPE_LINE_STRIP, polygon_mode = POLY_MODE_FILL,
       last_provoking = False, flat_shading = False\<rparr>
      (Some (sequential_indices 0 2 @ sequential_indices 5 2)) 4)
     = Inr [0, 1, 1, 5, 5, 6]"
proof -
  have tc: "total_count [(0, 2), (5, 2)] < 2 ^ 30" by (simp add: total_count_def)
  have s: "sequential_indices 0 2 = [0, 1]" "sequential_indices 5 2 = [5, 6]"
    by (simp_all add: sequential_indices_def upt_rec)
  show ?thesis
    by (simp add: rewritten_ranges [OF buf_ok_init tc] rewritten_indexed [OF buf_ok_init]
          ranges_out_def eval_decomposed s)
qed

text \<open>
  C2 does not hold of the code: on a mapped buffer of 4 bytes with bump offset 0, two
  chunks of one byte each and alignment 4 pass the capacity check for their total size
  (\<open>0 + 2 \<le> 4\<close>), but \<open>pgraph_vk_append_to_buffer\<close> rounds the offset up again before
  the second chunk and copies it to offset 4, one byte past the end of the buffer.
\<close>

theorem append_writes_past_buffer_end:
  "pgraph_vk_buffer_has_space_for (staging_example 4) BUFFER_INDEX_STAGING (1 + 1) 4 \<and>
   pgraph_vk_append_to_buffer (staging_example 4) BUFFER_INDEX_STAGING
     [([0xAA], 1), ([0xBB], 1)] 4 = Inl OutOfBounds"
  by (simp add: staging_example_def pgraph_vk_buffer_has_space_for_def pgraph_vk_append_to_buffer_def
        BUFFER_COUNT_def BUFFER_INDEX_STAGING_def ROUND_UP_examples memcpy_at_def Let_def)

text \<open>
  C3 does not hold of the code: on a mapped buffer of 8 bytes with bump offset 0, two
  chunks of one byte each and alignment 4 are written at the offsets 0 and 4, with three
  bytes of padding in between, and the bump offset ends at 5, not at
  \<open>ROUND_UP 0 4 + 2 = 2\<close>. The returned starting offset is the aligned offset 0 of the
  first chunk.
\<close>

theorem append_pads_between_chunks:
  "\<exists>r'. pgraph_vk_append_to_buffer (staging_example 8) BUFFER_INDEX_STAGING
           [([0xAA], 1), ([0xBB], 1)] 4 = Inr (r', 0) \<and>
        buffer_offset (storage_buffers r' ! BUFFER_INDEX_STAGING) = 5 \<and>
        mapped (storage_buffers r' ! BUFFER_INDEX_STAGING) = Some [0xAA, 0, 0, 0, 0xBB, 0, 0, 0] \<and>
        ROUND_UP 0 4 + (1 + 1) = (2 :: 64 word)"
  by (simp add: staging_example_def pgraph_vk_buffer_has_space_for_def pgraph_vk_append_to_buffer_def
        BUFFER_COUNT_def BUFFER_INDEX_STAGING_def ROUND_UP_examples memcpy_at_def Let_def
        replicate_8)

text \<open>
  C9: called on a fresh state (no handle, mapping or bitmap in the renderer state, nothing
  live in the environment), \<open>pgraph_vk_init_buffers\<close> succeeds exactly when the bitmap
  allocation, all \<open>BUFFER_COUNT\<close> buffer creations and all four mappings succeed. When it
  reports failure, whichever step failed, the allocator holds no buffer and no mapping,
  no heap block of the bitmap is left, the bitmap pointer is null, and every entry of the
  buffer array has null handles and a null mapping.
\<close>

theorem init_buffers_all_or_nothing:
  assumes "fresh_state w r"
    and "pgraph_vk_init_buffers env p w r = (ok, w', r')"
  shows "(ok \<longleftrightarrow> bitmap_new_ok env \<and> (\<forall>i<BUFFER_COUNT. create_ok env i) \<and>
                (\<forall>i\<in>set buffers_to_map. map_ok env i)) \<and>
         (\<not> ok \<longrightarrow>
            vma_buffers w' = [] \<and> vma_mappings w' = [] \<and> heap_blocks w' = 0 \<and>
            uploaded_bitmap r' = None \<and>
            (\<forall>b\<in>set (storage_buffers r'). buffer b = None \<and> allocation b = None \<and> mapped b = None))"
proof -
  from assms(1) have len: "length (storage_buffers r) = BUFFER_COUNT"
    and cl: "\<forall>b\<in>set (storage_buffers r). cleared b" and bm: "uploaded_bitmap r = None"
    and w0: "vma_buffers w = []" "vma_mappings w = []" "heap_blocks w = 0"
    by (simp_all add: fresh_state_def)
  define sb1 where "sb1 = assign_buffers_before_bitmap p (storage_buffers r)"
  define sb2 where "sb2 = assign_buffers_after_bitmap p sb1"
  define w1 where "w1 = w\<lparr>heap_blocks := heap_blocks w + 1\<rparr>"
  define r2 where "r2 = r\<lparr>storage_buffers := sb1, bitmap_size := unat (vram_size p div 4096),
      uploaded_bitmap := Some (replicate (unat (vram_size p div 4096)) False)\<rparr>"
  have c1: "\<forall>b\<in>set sb1. cleared b" and c2: "\<forall>b\<in>set sb2. cleared b"
    unfolding sb1_def sb2_def by (intro assign_buffers_cleared cl)+
  have l2: "length sb2 = BUFFER_COUNT" by (simp add: sb2_def sb1_def assign_buffers_length len)
  have t1: "tracked w1 sb2" by (rule tracked_empty) (simp_all add: w1_def w0)
  show ?thesis
  proof (cases "bitmap_new_ok env")
    case False
    then have "ok = False" "w' = w"
      "r' = r\<lparr>storage_buffers := sb1, bitmap_size := unat (vram_size p div 4096),
             uploaded_bitmap := None\<rparr>"
      using assms(2) by (simp_all add: pgraph_vk_init_buffers_def Let_def sb1_def)
    then show ?thesis using False w0 c1 by (simp add: cleared_def)
  next
    case bok: True
    obtain okc wc sbc where c: "create_buffers_loop env w1 sb2 0 = (okc, wc, sbc)"
      by (cases "create_buffers_loop env w1 sb2 0")
    have fresh2: "\<forall>j. 0 \<le> j \<and> j < BUFFER_COUNT \<longrightarrow> buffer (sb2 ! j) = None"
      "\<forall>j<BUFFER_COUNT. mapped (sb2 ! j) = None"
      using c2 l2 by (auto simp: cleared_def)
    from create_buffers_loop_tracked [OF t1 l2 fresh2 c]
    have tc: "tracked wc sbc" and lc: "length sbc = BUFFER_COUNT"
      and mc: "\<forall>j<BUFFER_COUNT. mapped (sbc ! j) = None"
      and hc: "heap_blocks wc = 1"
      and okc: "okc \<longleftrightarrow> (\<forall>j<BUFFER_COUNT. create_ok env j)"
      by (simp_all add: w1_def w0)
    have step: "pgraph_vk_init_buffers env p w r =
        (if \<not> okc then init_buffers_fail wc (r2\<lparr>storage_buffers := sbc\<rparr>)
         else
           (case map_buffers_loop env wc sbc buffers_to_map of
              (okm, wm, sbm) \<Rightarrow>
                if \<not> okm then init_buffers_fail wm (r2\<lparr>storage_buffers := sbm\<rparr>)
                else (True, wm,
                      r2\<lparr>storage_buffers := sbm,
                        prim_rewrite_buf := pgraph_prim_rewrite_init (prim_rewrite_buf r2)\<rparr>)))"
      using bok c
      by (simp add: pgraph_vk_init_buffers_def Let_def sb1_def sb2_def w1_def r2_def
            split: prod.splits)
    show ?thesis
    proof (cases okc)
      case False
      then have f: "init_buffers_fail wc (r2\<lparr>storage_buffers := sbc\<rparr>) = (ok, w', r')"
        using assms(2) step by simp
      from init_buffers_fail_clean [OF _ _ f] tc lc hc False okc
      show ?thesis by (simp add: r2_def cleared_def)
    next
      case cok: True
      obtain okm wm sbm where m: "map_buffers_loop env wc sbc buffers_to_map = (okm, wm, sbm)"
        by (cases "map_buffers_loop env wc sbc buffers_to_map")
      have pre: "\<forall>i\<in>set buffers_to_map. i < BUFFER_COUNT \<and> mapped (sbc ! i) = None"
        using buffers_to_map_ok(2) mc by simp
      from map_buffers_loop_tracked [OF tc lc buffers_to_map_ok(1) pre m]
      have tm: "tracked wm sbm" and lm: "length sbm = BUFFER_COUNT"
        and hm: "heap_blocks wm = 1"
        and okm: "okm \<longleftrightarrow> (\<forall>i\<in>set buffers_to_map. map_ok env i)"
        by (simp_all add: hc)
      show ?thesis
      proof (cases okm)
        case False
        then have f: "init_buffers_fail wm (r2\<lparr>storage_buffers := sbm\<rparr>) = (ok, w', r')"
          using assms(2) step cok m by simp
        from init_buffers_fail_clean [OF _ _ f] tm lm hm False okm
        show ?thesis by (simp add: r2_def cleared_def)
      next
        case True
        then have "ok = True" using assms(2) step cok m by simp
        then show ?thesis using bok cok okc True okm by simp
      qed
    qed
  qed
qed

theorem init_buffers_all_or_nothing_witness:
  "fresh_state \<lparr>vma_buffers = [], vma_mappings = [], next_handle = 0, heap_blocks = 0\<rparr>
     \<lparr>storage_buffers = replicate BUFFER_COUNT (new_storage_buffer DeviceLocal [] 0),
      uploaded_bitmap = None, bitmap_size = 0,
      prim_rewrite_buf = \<lparr>data = None, capacity = 0\<rparr>\<rparr> \<and>
   (case pgraph_vk_init_buffers
           \<lparr>bitmap_new_ok = True, create_ok = (\<lambda>i. i \<noteq> BUFFER_COMPUTE_SRC), map_ok = (\<lambda>i. True)\<rparr>
           \<lparr>vram_size = 0x4000000, android = False, inline_elements_bytes = 0x7FFFC,
            vertex_batch_bytes = 0x1FFFF00\<rparr>
           \<lparr>vma_buffers = [], vma_mappings = [], next_handle = 0, heap_blocks = 0\<rparr>
           \<lparr>storage_buffers = replicate BUFFER_COUNT (new_storage_buffer DeviceLocal [] 0),
            uploaded_bitmap = None, bitmap_size = 0,
            prim_rewrite_buf = \<lparr>data = None, capacity = 0\<rparr>\<rparr> of
      (ok, w', r') \<Rightarrow>
        \<not> ok \<and> vma_buffers w' = [] \<and> vma_mappings w' = [] \<and> heap_blocks w' = 0 \<and>
        uploaded_bitmap r' = None)"
proof -
  let ?w = "\<lparr>vma_buffers = [], vma_mappings = [], next_handle = 0, heap_blocks = 0\<rparr>"
  let ?r = "\<lparr>storage_buffers = replicate BUFFER_COUNT (new_storage_buffer DeviceLocal [] 0),
      uploaded_bitmap = None, bitmap_size = 0,
      prim_rewrite_buf = \<lparr>data = None, capacity = 0\<rparr>\<rparr>"
  let ?env = "\<lparr>bitmap_new_ok = True, create_ok = (\<lambda>i. i \<noteq> BUFFER_COMPUTE_SRC), map_ok = (\<lambda>i. True)\<rparr>"
  let ?p = "\<lparr>vram_size = 0x4000000, android = False, inline_elements_bytes = 0x7FFFC,
            vertex_batch_bytes = 0x1FFFF00\<rparr>"
  have f: "fresh_state ?w ?r"
    by (simp add: fresh_state_def cleared_new_storage_buffer)
  obtain ok w' r' where e: "pgraph_vk_init_buffers ?env ?p ?w ?r = (ok, w', r')"
    by (cases "pgraph_vk_init_buffers ?env ?p ?w ?r")
  note t = init_buffers_all_or_nothing [OF f e]
  have "\<not> (\<forall>i<BUFFER_COUNT. create_ok ?env i)"
    by (auto simp: BUFFER_COUNT_def BUFFER_COMPUTE_SRC_def)
  with t have "\<not> ok" by blast
  with t f show ?thesis unfolding e by simp
qed

end
